theory Spec2Isabelle
  imports Complex_Main "HOL-Library.Log_Nat" "HOL-Library.Code_Target_Numeral"
begin

section \<open>JavaScript numbers and strings, as far as src/index.ts uses them\<close>

text \<open>
  A JavaScript number is a double: a finite value, one of the two infinities, or NaN.
  A finite double is kept as the real number it stands for; the results of \<open>+\<close> and
  \<open>*\<close> and of reading a numeral are rounded to the nearest double (\<open>fl\<close> below),
  ties to even, with overflow to an infinity. The two zeros are not told apart. A
  string is a list of 8-bit code units.
\<close>

datatype number = NaN | Fin real | PosInf | NegInf

fun isNaN :: "number \<Rightarrow> bool" where
  "isNaN NaN = True"
| "isNaN _ = False"

fun isFinite :: "number \<Rightarrow> bool" where
  "isFinite (Fin _) = True"
| "isFinite _ = False"

text \<open>The truth value of a number in a condition: \<open>0\<close> and NaN are false.\<close>

fun truthy :: "number \<Rightarrow> bool" where
  "truthy NaN = False"
| "truthy (Fin x) = (x \<noteq> 0)"
| "truthy _ = True"

text \<open>The operator \<open><\<close>; \<open>a > b\<close> is \<open>b < a\<close>, and \<open>a >= b\<close> is false on NaN.\<close>

fun js_lt :: "number \<Rightarrow> number \<Rightarrow> bool" where
  "js_lt NaN _ = False"
| "js_lt _ NaN = False"
| "js_lt (Fin x) (Fin y) = (x < y)"
| "js_lt NegInf NegInf = False"
| "js_lt NegInf _ = True"
| "js_lt _ NegInf = False"
| "js_lt PosInf _ = False"
| "js_lt _ PosInf = True"

definition js_gt :: "number \<Rightarrow> number \<Rightarrow> bool" where
  "js_gt a b = js_lt b a"

definition js_ge :: "number \<Rightarrow> number \<Rightarrow> bool" where
  "js_ge a b = (\<not> isNaN a \<and> \<not> isNaN b \<and> \<not> js_lt a b)"

definition js_le :: "number \<Rightarrow> number \<Rightarrow> bool" where
  "js_le a b = js_ge b a"

fun Math_min :: "number \<Rightarrow> number \<Rightarrow> number" where
  "Math_min NaN _ = NaN"
| "Math_min _ NaN = NaN"
| "Math_min (Fin x) (Fin y) = Fin (min x y)"
| "Math_min NegInf _ = NegInf"
| "Math_min _ NegInf = NegInf"
| "Math_min PosInf b = b"
| "Math_min a PosInf = a"

fun Math_max :: "number \<Rightarrow> number \<Rightarrow> number" where
  "Math_max NaN _ = NaN"
| "Math_max _ NaN = NaN"
| "Math_max (Fin x) (Fin y) = Fin (max x y)"
| "Math_max PosInf _ = PosInf"
| "Math_max _ PosInf = PosInf"
| "Math_max NegInf b = b"
| "Math_max a NegInf = a"

fun Math_floor :: "number \<Rightarrow> number" where
  "Math_floor (Fin x) = Fin (of_int \<lfloor>x\<rfloor>)"
| "Math_floor n = n"

subsection \<open>Rounding to the nearest double\<close>

text \<open>\<open>pow2 k\<close> is 2 to the power \<open>k\<close>, for any integer \<open>k\<close>.\<close>

definition pow2 :: "int \<Rightarrow> real" where
  "pow2 k = (if 0 \<le> k then 2 ^ nat k else 1 / 2 ^ nat (- k))"

text \<open>
  The binary exponent of a real \<open>x \<noteq> 0\<close>: the \<open>e\<close> with
  \<open>2^e \<le> |x| < 2^(e+1)\<close> (lemma \<open>expo_bounds\<close>), from the bit length of an integer.
\<close>

definition expo :: "real \<Rightarrow> int" where
  "expo x =
     (let a = \<bar>x\<bar>
      in if 1 \<le> a then bitlen \<lfloor>a\<rfloor> - 1 else - bitlen (\<lceil>1 / a\<rceil> - 1))"

text \<open>The nearest integer, a tie going to the even one.\<close>

definition roundEven :: "real \<Rightarrow> int" where
  "roundEven q =
     (let f = \<lfloor>q\<rfloor>; d = q - of_int f
      in if d < 1 / 2 then f
         else if 1 / 2 < d then f + 1
         else if even f then f else f + 1)"

text \<open>
  The double nearest to a real: 53 significant bits, so the last place of \<open>x\<close> is
  \<open>2^(e - 52)\<close>, and \<open>2^(-1074)\<close> below the normal range; a result of magnitude
  \<open>2^1024\<close> is an infinity.
\<close>

definition fl :: "real \<Rightarrow> number" where
  "fl x =
     (if x = 0 then Fin 0
      else
        let u = pow2 (max (expo x) (- 1022) - 52);
            y = u * of_int (roundEven (x / u))
        in if 2 ^ 1024 \<le> \<bar>y\<bar> then (if 0 < x then PosInf else NegInf) else Fin y)"

subsection \<open>Arithmetic\<close>

fun js_add :: "number \<Rightarrow> number \<Rightarrow> number" where
  "js_add NaN _ = NaN"
| "js_add _ NaN = NaN"
| "js_add (Fin x) (Fin y) = fl (x + y)"
| "js_add PosInf NegInf = NaN"
| "js_add NegInf PosInf = NaN"
| "js_add PosInf _ = PosInf"
| "js_add _ PosInf = PosInf"
| "js_add NegInf _ = NegInf"
| "js_add _ NegInf = NegInf"

fun js_mul :: "number \<Rightarrow> number \<Rightarrow> number" where
  "js_mul NaN _ = NaN"
| "js_mul _ NaN = NaN"
| "js_mul (Fin x) (Fin y) = fl (x * y)"
| "js_mul (Fin x) PosInf = (if x = 0 then NaN else if 0 < x then PosInf else NegInf)"
| "js_mul (Fin x) NegInf = (if x = 0 then NaN else if 0 < x then NegInf else PosInf)"
| "js_mul PosInf (Fin y) = (if y = 0 then NaN else if 0 < y then PosInf else NegInf)"
| "js_mul NegInf (Fin y) = (if y = 0 then NaN else if 0 < y then NegInf else PosInf)"
| "js_mul PosInf PosInf = PosInf"
| "js_mul NegInf NegInf = PosInf"
| "js_mul PosInf NegInf = NegInf"
| "js_mul NegInf PosInf = NegInf"

subsection \<open>Strings\<close>

text \<open>
  White space as \<open>trim\<close> and \<open>parseInt\<close> skip it: tab, line feed, vertical tab,
  form feed, carriage return, space, no-break space (the code units below 256).
\<close>

definition isWhiteSpace :: "char \<Rightarrow> bool" where
  "isWhiteSpace c = ((of_char c :: nat) \<in> {9, 10, 11, 12, 13, 32, 160})"

definition trim :: "string \<Rightarrow> string" where
  "trim s = rev (dropWhile isWhiteSpace (rev (dropWhile isWhiteSpace s)))"

text \<open>\<open>String.prototype.toLowerCase\<close> on code units below 256: A-Z and the
  upper-case letters of Latin-1 (192-222 but the multiplication sign 215).\<close>

definition lowerChar :: "char \<Rightarrow> char" where
  "lowerChar c =
     (let n = (of_char c :: nat)
      in if (65 \<le> n \<and> n \<le> 90) \<or> (192 \<le> n \<and> n \<le> 222 \<and> n \<noteq> 215)
         then char_of (n + 32) else c)"

definition toLowerCase :: "string \<Rightarrow> string" where
  "toLowerCase s = map lowerChar s"

text \<open>\<open>s.split(",")\<close>: the pieces between the separators; never the empty list.\<close>

fun split :: "char \<Rightarrow> string \<Rightarrow> string list" where
  "split sep [] = [[]]"
| "split sep (c # cs) =
     (if c = sep then [] # split sep cs
      else (case split sep cs of
              [] \<Rightarrow> [[c]]
            | p # ps \<Rightarrow> (c # p) # ps))"

subsection \<open>parseInt(v, 10)\<close>

definition isDigit :: "char \<Rightarrow> bool" where
  "isDigit c = (48 \<le> (of_char c :: nat) \<and> (of_char c :: nat) \<le> 57)"

definition digitsValue :: "string \<Rightarrow> nat" where
  "digitsValue z = foldl (\<lambda>a c. 10 * a + (of_char c - 48)) 0 z"

text \<open>An integer as a number: the nearest double.\<close>

definition toDouble :: "int \<Rightarrow> number" where
  "toDouble n = fl (of_int n)"

text \<open>
  \<open>parseInt(s, 10)\<close>: skip leading white space, read an optional sign, then the
  longest run of decimal digits; NaN when that run is empty.
\<close>

definition parseInt :: "string \<Rightarrow> number" where
  "parseInt s =
     (let S = dropWhile isWhiteSpace s;
          neg = (case S of [] \<Rightarrow> False | c # _ \<Rightarrow> c = CHR ''-'');
          S' = (case S of [] \<Rightarrow> [] | c # cs \<Rightarrow> if c = CHR ''+'' \<or> c = CHR ''-'' then cs else S);
          Z = takeWhile isDigit S'
      in if Z = [] then NaN
         else toDouble ((if neg then - 1 else 1) * int (digitsValue Z)))"

subsection \<open>Number(s)\<close>

text \<open>
  The conversion of a string to a number: white space is trimmed; the empty string
  is 0; then a hexadecimal, octal or binary literal (\<open>0x\<close>, \<open>0o\<close>, \<open>0b\<close>, no sign),
  or a signed decimal literal (\<open>Infinity\<close>, or digits with an optional fraction and an
  optional exponent); anything else is NaN.
\<close>

definition isHexDigit :: "char \<Rightarrow> bool" where
  "isHexDigit c =
     (let n = (of_char c :: nat)
      in (48 \<le> n \<and> n \<le> 57) \<or> (65 \<le> n \<and> n \<le> 70) \<or> (97 \<le> n \<and> n \<le> 102))"

definition digitOf :: "char \<Rightarrow> nat" where
  "digitOf c =
     (let n = (of_char c :: nat)
      in if n \<le> 57 then n - 48 else if n \<le> 70 then n - 55 else n - 87)"

definition isDigitOf :: "nat \<Rightarrow> char \<Rightarrow> bool" where
  "isDigitOf radix c = (isHexDigit c \<and> digitOf c < radix)"

definition digitsRadix :: "nat \<Rightarrow> string \<Rightarrow> nat" where
  "digitsRadix radix z = foldl (\<lambda>a c. radix * a + digitOf c) 0 z"

text \<open>\<open>None\<close> when the string does not start with a radix prefix.\<close>

definition nonDecimalLiteral :: "string \<Rightarrow> number option" where
  "nonDecimalLiteral t =
     (case t of
        c0 # c1 # ds \<Rightarrow>
          (let radix =
                 (if c0 \<noteq> CHR ''0'' then 0
                  else if c1 = CHR ''x'' \<or> c1 = CHR ''X'' then 16
                  else if c1 = CHR ''o'' \<or> c1 = CHR ''O'' then 8
                  else if c1 = CHR ''b'' \<or> c1 = CHR ''B'' then 2
                  else (0::nat))
           in if radix = 0 then None
              else Some (if ds \<noteq> [] \<and> list_all (isDigitOf radix) ds
                         then fl (of_nat (digitsRadix radix ds)) else NaN))
      | _ \<Rightarrow> None)"

text \<open>The exponent after the digits: none (0), \<open>e\<close> or \<open>E\<close> with a signed integer, or
  something else (\<open>None\<close>).\<close>

definition exponentPart :: "string \<Rightarrow> int option" where
  "exponentPart r =
     (case r of
        [] \<Rightarrow> Some 0
      | c # cs \<Rightarrow>
          if c = CHR ''e'' \<or> c = CHR ''E''
          then (let neg = (case cs of [] \<Rightarrow> False | d # _ \<Rightarrow> d = CHR ''-'');
                    ds = (case cs of [] \<Rightarrow> []
                          | d # ds' \<Rightarrow> if d = CHR ''+'' \<or> d = CHR ''-'' then ds' else cs)
                in if ds \<noteq> [] \<and> list_all isDigit ds
                   then Some ((if neg then - 1 else 1) * int (digitsValue ds))
                   else None)
          else None)"

definition scale10 :: "int \<Rightarrow> real" where
  "scale10 k = (if 0 \<le> k then 10 ^ nat k else 1 / 10 ^ nat (- k))"

definition strDecimalLiteral :: "string \<Rightarrow> number" where
  "strDecimalLiteral t =
     (let neg = (case t of [] \<Rightarrow> False | c # _ \<Rightarrow> c = CHR ''-'');
          u = (case t of [] \<Rightarrow> [] | c # cs \<Rightarrow> if c = CHR ''+'' \<or> c = CHR ''-'' then cs else t)
      in if u = ''Infinity'' then (if neg then NegInf else PosInf)
         else
           let ip = takeWhile isDigit u;
               r1 = dropWhile isDigit u;
               fp = (case r1 of [] \<Rightarrow> []
                     | c # cs \<Rightarrow> if c = CHR ''.'' then takeWhile isDigit cs else []);
               r2 = (case r1 of [] \<Rightarrow> []
                     | c # cs \<Rightarrow> if c = CHR ''.'' then dropWhile isDigit cs else r1)
           in if ip = [] \<and> fp = [] then NaN
              else (case exponentPart r2 of
                      None \<Rightarrow> NaN
                    | Some e \<Rightarrow>
                        fl ((if neg then - 1 else 1) * of_nat (digitsValue (ip @ fp))
                              * scale10 (e - int (length fp)))))"

definition Number :: "string \<Rightarrow> number" where
  "Number s =
     (let t = trim s
      in if t = [] then Fin 0
         else (case nonDecimalLiteral t of
                 Some n \<Rightarrow> n
               | None \<Rightarrow> strDecimalLiteral t))"

section \<open>Pipeline A: configuration\<close>

record Env =
  CLARITY_ENDPOINT :: "string option"
  BATCH_MS :: "string option"
  BATCH_MAX_REQUESTS :: "string option"
  BACKOFF_BASE_MS :: "string option"
  BACKOFF_MAX_MS :: "string option"

definition default_BATCH_MS :: number where
  "default_BATCH_MS = Fin 20000"

definition default_BATCH_MAX_REQUESTS :: number where
  "default_BATCH_MAX_REQUESTS = Fin 200"

definition default_BACKOFF_BASE_MS :: number where
  "default_BACKOFF_BASE_MS = Fin 2000"

definition default_BACKOFF_MAX_MS :: number where
  "default_BACKOFF_MAX_MS = Fin 60000"

definition toNumber :: "string option \<Rightarrow> number \<Rightarrow> number" where
  "toNumber v fallback =
     (let n = (case v of Some s \<Rightarrow> parseInt s | None \<Rightarrow> NaN)
      in if isFinite n then n else fallback)"

record Config =
  clarityEndpoint :: string
  batchMs :: number
  batchMax :: number
  backoffBase :: number
  backoffMax :: number

definition cfg :: "Env \<Rightarrow> Config" where
  "cfg env =
     \<lparr> clarityEndpoint = (case CLARITY_ENDPOINT env of Some s \<Rightarrow> trim s | None \<Rightarrow> ''''),
       batchMs = toNumber (BATCH_MS env) default_BATCH_MS,
       batchMax = toNumber (BATCH_MAX_REQUESTS env) default_BATCH_MAX_REQUESTS,
       backoffBase = toNumber (BACKOFF_BASE_MS env) default_BACKOFF_BASE_MS,
       backoffMax = toNumber (BACKOFF_MAX_MS env) default_BACKOFF_MAX_MS \<rparr>"

section \<open>Pipeline A: the batch, the flush timer and the backoff\<close>

text \<open>
  The result of \<open>await fetch(...)\<close>: the promise resolves with a response, of which only
  the status is read, or it rejects (a transport error, an abort).
\<close>

datatype outcome = Resp nat | Threw

text \<open>
  A flush suspended at \<open>await fetch(clarityEndpoint, req)\<close> keeps its locals: the
  swapped-out batch and the configuration it read before the call.
\<close>

record 'e Pending =
  toSend :: "'e list"
  conf :: Config

text \<open>
  The four module variables of the isolate, and what the runtime holds for it: the
  \<open>sleep\<close> timers not yet fired (each with the \<open>env\<close> of its \<open>scheduleFlush\<close>), the
  flushes suspended at their POST, and the batches POSTed so far (one log object per
  line of the body, in this order).
\<close>

record 'e State =
  batch :: "'e list"
  flushScheduled :: bool
  backoffUntil :: number
  backoffMs :: number
  timers :: "Env list"
  awaiting :: "'e Pending list"
  posts :: "'e list list"

definition init :: "'e State" where
  "init = \<lparr> batch = [], flushScheduled = False, backoffUntil = Fin 0, backoffMs = Fin 0,
            timers = [], awaiting = [], posts = [] \<rparr>"

text \<open>
  \<open>flush\<close> up to its \<open>await\<close>: the backoff guard, the swap of the batch, the guard on
  an empty batch, then the POST. \<open>now\<close> is what \<open>Date.now()\<close> returns.
\<close>

definition flush :: "Env \<Rightarrow> real \<Rightarrow> 'e State \<Rightarrow> 'e State" where
  "flush env now st =
     (if js_lt (Fin now) (backoffUntil st) then st
      else
        let c = cfg env;
            out = batch st;
            st1 = st\<lparr>batch := []\<rparr>
        in if length out = 0 then st1
           else st1\<lparr>awaiting := awaiting st1 @ [\<lparr>toSend = out, conf = c\<rparr>],
                    posts := posts st1 @ [out]\<rparr>)"

text \<open>
  The statements of the failure paths (the branch on 429 or 403, and the \<open>catch\<close>
  block, which repeats them): the next backoff, the jitter from \<open>Math.random()\<close>, the
  new \<open>backoffUntil\<close> from \<open>Date.now()\<close>, and the requeue.
\<close>

definition nextBackoff :: "Config \<Rightarrow> number \<Rightarrow> number" where
  "nextBackoff c b =
     (if truthy b then Math_min (js_mul b (Fin 2)) (backoffMax c) else backoffBase c)"

definition backoffAndRequeue :: "'e Pending \<Rightarrow> real \<Rightarrow> real \<Rightarrow> 'e State \<Rightarrow> 'e State" where
  "backoffAndRequeue p rnd now st =
     (let b = nextBackoff (conf p) (backoffMs st);
          jitter = Math_floor (js_mul (Fin rnd) (Fin 500))
      in st\<lparr>backoffMs := b,
            backoffUntil := js_add (js_add (Fin now) b) jitter,
            batch := toSend p @ batch st\<rparr>)"

text \<open>\<open>flush\<close> from its \<open>await\<close> on, once the POST has settled.\<close>

definition flush_resume ::
    "'e Pending \<Rightarrow> outcome \<Rightarrow> real \<Rightarrow> real \<Rightarrow> 'e State \<Rightarrow> 'e State" where
  "flush_resume p out rnd now st =
     (case out of
        Resp status \<Rightarrow>
          if status = 429 \<or> status = 403 then backoffAndRequeue p rnd now st
          else st\<lparr>backoffMs := Fin 0, backoffUntil := Fin 0\<rparr>
      | Threw \<Rightarrow> backoffAndRequeue p rnd now st)"

text \<open>
  \<open>logAndBatch\<close> has no \<open>await\<close>: the push, the size trigger and the arming of the
  timer (\<open>scheduleFlush\<close> up to its \<open>await sleep(batchMs)\<close>) run in one piece. \<open>ev\<close> is
  the log object built from the request and the response.
\<close>

definition logAndBatch :: "'e \<Rightarrow> Env \<Rightarrow> real \<Rightarrow> 'e State \<Rightarrow> 'e State" where
  "logAndBatch ev env now st =
     (let st1 = st\<lparr>batch := batch st @ [ev]\<rparr>
      in if js_ge (Fin (of_nat (length (batch st1)))) (batchMax (cfg env))
         then flush env now st1
         else if \<not> flushScheduled st1
              then st1\<lparr>flushScheduled := True, timers := timers st1 @ [env]\<rparr>
              else st1)"

text \<open>\<open>scheduleFlush\<close> from its \<open>await\<close> on, once the delay has elapsed.\<close>

definition scheduleFlush_resume :: "Env \<Rightarrow> real \<Rightarrow> 'e State \<Rightarrow> 'e State" where
  "scheduleFlush_resume env now st =
     (let st1 = st\<lparr>flushScheduled := False\<rparr>
      in if length (batch st1) > 0 then flush env now st1 else st1)"

text \<open>
  One isolate runs one piece of code at a time, up to the next \<open>await\<close>. Its history
  is a sequence of such pieces: a request is captured, a timer fires, a POST settles.
  A timer or a POST that is not outstanding cannot fire or settle.
\<close>

datatype 'e event =
    Capture 'e Env real
  | TimerFires nat real
  | PostSettles nat outcome real real

definition remove_nth :: "nat \<Rightarrow> 'a list \<Rightarrow> 'a list" where
  "remove_nth i xs = take i xs @ drop (Suc i) xs"

fun step :: "'e event \<Rightarrow> 'e State \<Rightarrow> 'e State option" where
  "step (Capture ev env now) st = Some (logAndBatch ev env now st)"
| "step (TimerFires i now) st =
     (if i < length (timers st)
      then Some (scheduleFlush_resume (timers st ! i) now
                   (st\<lparr>timers := remove_nth i (timers st)\<rparr>))
      else None)"
| "step (PostSettles i out rnd now) st =
     (if i < length (awaiting st)
      then Some (flush_resume (awaiting st ! i) out rnd now
                   (st\<lparr>awaiting := remove_nth i (awaiting st)\<rparr>))
      else None)"

fun run :: "'e event list \<Rightarrow> 'e State \<Rightarrow> 'e State option" where
  "run [] st = Some st"
| "run (e # es) st = (case step e st of None \<Rightarrow> None | Some st' \<Rightarrow> run es st')"

section \<open>Pipeline B: the sampling, redacting, retrying forwarder\<close>

record ForwarderEnv =
  INGEST_URL :: string
  TENANT_KEY :: string
  SAMPLE_RATE :: "string option"
  REDACT_HEADERS :: "string option"
  SIGN_BODY :: "string option"
  REQUEST_TIMEOUT_MS :: "string option"

definition UA :: string where
  "UA = ''cf-forwarder/1.2''"

definition RETRIES :: nat where
  "RETRIES = 2"

text \<open>
  What the handler's calls can raise: \<open>TypeError\<close> (a header name or value the
  runtime refuses, a body that cannot be read), \<open>RangeError\<close> (a status no response can
  be built with), \<open>DataError\<close> (an empty key), and the rejection of an upstream
  \<open>fetch\<close>.
\<close>

datatype js_error = TypeError | RangeError | DataError | FetchRejected

text \<open>Go on with the value of a step, or stop at what it raised.\<close>

definition thenDo :: "js_error + 'a \<Rightarrow> ('a \<Rightarrow> js_error + 'b) \<Rightarrow> js_error + 'b" where
  "thenDo m f = (case m of Inl e \<Rightarrow> Inl e | Inr x \<Rightarrow> f x)"

subsection \<open>Headers\<close>

text \<open>
  A \<open>Headers\<close> object maps header names, compared without regard to the case of
  A-Z, to values: the names are stored in lower case and every method lowers the name
  it is given. Every method raises \<open>TypeError\<close> on a name that is no HTTP token;
  \<open>set\<close> strips the HTTP white space (tab, line feed, carriage return, space) around
  the value and raises \<open>TypeError\<close> when what is left holds a NUL, a line feed or a
  carriage return.
\<close>

type_synonym headers = "string \<rightharpoonup> string"

definition byteLower :: "string \<Rightarrow> string" where
  "byteLower s =
     map (\<lambda>c. let n = (of_char c :: nat) in if 65 \<le> n \<and> n \<le> 90 then char_of (n + 32) else c) s"

definition isTchar :: "char \<Rightarrow> bool" where
  "isTchar c =
     (let n = (of_char c :: nat)
      in (48 \<le> n \<and> n \<le> 57) \<or> (65 \<le> n \<and> n \<le> 90) \<or> (97 \<le> n \<and> n \<le> 122) \<or>
         n \<in> {33, 35, 36, 37, 38, 39, 42, 43, 45, 46, 94, 95, 96, 124, 126})"

definition isHeaderName :: "string \<Rightarrow> bool" where
  "isHeaderName name = (name \<noteq> [] \<and> list_all isTchar name)"

definition isHttpWhitespace :: "char \<Rightarrow> bool" where
  "isHttpWhitespace c = ((of_char c :: nat) \<in> {9, 10, 13, 32})"

definition normalizeValue :: "string \<Rightarrow> string" where
  "normalizeValue v = rev (dropWhile isHttpWhitespace (rev (dropWhile isHttpWhitespace v)))"

definition isHeaderValue :: "string \<Rightarrow> bool" where
  "isHeaderValue v = list_all (\<lambda>c. (of_char c :: nat) \<notin> {0, 10, 13}) v"

definition h_has :: "headers \<Rightarrow> string \<Rightarrow> js_error + bool" where
  "h_has h name =
     (if isHeaderName name then Inr (h (byteLower name) \<noteq> None) else Inl TypeError)"

definition h_get :: "headers \<Rightarrow> string \<Rightarrow> js_error + string option" where
  "h_get h name =
     (if isHeaderName name then Inr (h (byteLower name)) else Inl TypeError)"

definition h_set :: "headers \<Rightarrow> string \<Rightarrow> string \<Rightarrow> js_error + headers" where
  "h_set h name v =
     (let v' = normalizeValue v
      in if isHeaderName name \<and> isHeaderValue v' then Inr (h(byteLower name \<mapsto> v'))
         else Inl TypeError)"

text \<open>\<open>new Set(xs)\<close>: the elements in the order of their first occurrence.\<close>

definition newSet :: "'a list \<Rightarrow> 'a list" where
  "newSet xs = foldl (\<lambda>acc x. if x \<in> set acc then acc else acc @ [x]) [] xs"

text \<open>
  A request: the path of its URL, its headers, its body (none, or the bytes of the
  stream), and whether reading that stream fails (the client went away).
\<close>

record Request =
  pathname :: string
  headers :: headers
  body :: "string option"
  bodyFails :: bool

record Response =
  status :: nat
  resp_body :: "string option"

text \<open>What one upstream \<open>fetch(env.INGEST_URL, ...)\<close> is given.\<close>

record UpstreamCall =
  url :: string
  u_headers :: headers
  u_body :: "string option"
  u_timeout :: number

record Forwarded =
  response :: Response
  upstream :: "UpstreamCall list"

subsection \<open>The sampling gate\<close>

definition clamp :: "number \<Rightarrow> number \<Rightarrow> number \<Rightarrow> number" where
  "clamp n mn mx = (if isNaN n then mn else Math_max mn (Math_min mx n))"

definition sampleRate :: "ForwarderEnv \<Rightarrow> number" where
  "sampleRate env =
     clamp (Number (case SAMPLE_RATE env of None \<Rightarrow> ''1.0'' | Some s \<Rightarrow> s)) (Fin 0) (Fin 1)"

subsection \<open>Redaction and the forced headers\<close>

definition redactSet :: "ForwarderEnv \<Rightarrow> string list" where
  "redactSet env =
     newSet (filter (\<lambda>h. h \<noteq> [])
       (map (\<lambda>h. toLowerCase (trim h))
         (split CHR '',''
           (case REDACT_HEADERS env of None \<Rightarrow> ''authorization,cookie'' | Some s \<Rightarrow> s))))"

text \<open>The loop over the redact set; it stops at the first name \<open>has\<close> refuses.\<close>

fun redactHeaders :: "string list \<Rightarrow> headers \<Rightarrow> js_error + headers" where
  "redactHeaders [] fh = Inr fh"
| "redactHeaders (h # hs) fh =
     (case h_has fh h of
        Inl e \<Rightarrow> Inl e
      | Inr present \<Rightarrow>
          if present
          then (case h_set fh h ''__REDACTED__'' of
                  Inl e \<Rightarrow> Inl e
                | Inr fh' \<Rightarrow> redactHeaders hs fh')
          else redactHeaders hs fh)"

definition forwardHeaders :: "ForwarderEnv \<Rightarrow> headers \<Rightarrow> js_error + headers" where
  "forwardHeaders env h =
     thenDo (redactHeaders (redactSet env) h) (\<lambda>fh.
     thenDo (h_set fh ''x-tenant-key'' (TENANT_KEY env)) (\<lambda>fh.
     thenDo (h_set fh ''user-agent'' UA) (\<lambda>fh.
     thenDo (h_get fh ''content-type'') (\<lambda>ct.
       if ct = None \<or> ct = Some []
       then h_set fh ''content-type'' ''application/json''
       else Inr fh))))"

definition signEnabled :: "ForwarderEnv \<Rightarrow> bool" where
  "signEnabled env =
     (toLowerCase (case SIGN_BODY env of None \<Rightarrow> ''false'' | Some s \<Rightarrow> s) = ''true'')"

text \<open>\<open>await request.arrayBuffer()\<close>: the bytes of the body, none for no body.\<close>

definition arrayBuffer :: "Request \<Rightarrow> js_error + string" where
  "arrayBuffer request =
     (case body request of
        None \<Rightarrow> Inr []
      | Some b \<Rightarrow> if bodyFails request then Inl TypeError else Inr b)"

text \<open>
  \<open>hmacSha256Hex\<close>: \<open>importKey\<close> raises on a key of length zero; \<open>hmac\<close> is the keyed
  hash, in hexadecimal, that \<open>crypto.subtle\<close> computes.
\<close>

definition hmacSha256Hex ::
    "(string \<Rightarrow> string \<Rightarrow> string) \<Rightarrow> string \<Rightarrow> string \<Rightarrow> js_error + string" where
  "hmacSha256Hex hmac key data = (if key = [] then Inl DataError else Inr (hmac key data))"

definition timeoutMs :: "ForwarderEnv \<Rightarrow> number" where
  "timeoutMs env =
     Math_max (Fin 1)
       (parseInt (case REQUEST_TIMEOUT_MS env of
                    None \<Rightarrow> ''6000''
                  | Some s \<Rightarrow> if s = [] then ''6000'' else s))"

subsection \<open>The retry loop\<close>

text \<open>\<open>new Response(null, { status })\<close> raises unless the status is in 200..599.\<close>

definition newResponse :: "nat \<Rightarrow> js_error + Response" where
  "newResponse s =
     (if 200 \<le> s \<and> s \<le> 599 then Inr \<lparr>status = s, resp_body = None\<rparr> else Inl RangeError)"

text \<open>
  The \<open>try\<close> block of one iteration, given what the upstream call of this attempt
  does: it raises, returns a response (\<open>Some\<close>), or falls through to the next iteration.
\<close>

definition tryBlock :: "nat \<Rightarrow> outcome \<Rightarrow> js_error + Response option" where
  "tryBlock attempt out =
     (case out of
        Threw \<Rightarrow> Inl FetchRejected
      | Resp s \<Rightarrow>
          if s \<ge> 500 \<and> attempt \<le> RETRIES + 1 then Inr None
          else (case newResponse s of Inl e \<Rightarrow> Inl e | Inr r \<Rightarrow> Inr (Some r)))"

text \<open>One iteration after \<open>attempt++\<close>: the \<open>try\<close> block and its \<open>catch\<close>.\<close>

definition iteration :: "nat \<Rightarrow> outcome \<Rightarrow> Response option" where
  "iteration attempt out =
     (case tryBlock attempt out of
        Inr r \<Rightarrow> r
      | Inl err \<Rightarrow>
          if attempt > RETRIES + 1 then Some \<lparr>status = 524, resp_body = None\<rparr> else None)"

text \<open>
  \<open>while (true)\<close>: \<open>up k\<close> is what the \<open>k\<close>-th upstream call does. The loop returns
  the response and the values of \<open>attempt\<close> at which it called upstream.
\<close>

function retryLoop :: "(nat \<Rightarrow> outcome) \<Rightarrow> nat \<Rightarrow> Response \<times> nat list" where
  "retryLoop up attempt =
     (let attempt' = attempt + 1
      in case iteration attempt' (up attempt') of
           Some r \<Rightarrow> (r, [attempt'])
         | None \<Rightarrow> (let (r, calls) = retryLoop up attempt' in (r, attempt' # calls)))"
  by pat_completeness auto
termination
  by (relation "measure (\<lambda>(up, attempt). RETRIES + 2 - attempt)")
     (auto simp: iteration_def tryBlock_def newResponse_def
        split: outcome.splits sum.splits if_splits)

declare retryLoop.simps [simp del]

subsection \<open>The handler\<close>

text \<open>
  The handler past the sampling gate: the headers to forward, the optional
  signature, the timeout, then the retry loop. Whatever is raised before the loop ends
  the handler with no upstream call.
\<close>

definition forward ::
    "(string \<Rightarrow> string \<Rightarrow> string) \<Rightarrow> (nat \<Rightarrow> outcome) \<Rightarrow> ForwarderEnv \<Rightarrow> Request
      \<Rightarrow> js_error + Forwarded" where
  "forward hmac up env request =
     thenDo (forwardHeaders env (headers request)) (\<lambda>fh.
     thenDo (if signEnabled env
             then thenDo (arrayBuffer request) (\<lambda>arr.
                  thenDo (hmacSha256Hex hmac (TENANT_KEY env) arr) (\<lambda>signature.
                  thenDo (h_set fh ''x-signature'' signature) (\<lambda>fh'.
                    Inr (fh', Some arr))))
             else Inr (fh, body request)) (\<lambda>(fh, bodyForSend).
       let call = \<lparr>url = INGEST_URL env, u_headers = fh, u_body = bodyForSend,
                   u_timeout = timeoutMs env\<rparr>;
           (r, calls) = retryLoop up 0
       in Inr \<lparr>response = r, upstream = map (\<lambda>_. call) calls\<rparr>))"

text \<open>
  The handler: the health path, the sampling gate, then the rest. \<open>rnd\<close> is what
  \<open>Math.random()\<close> returns.
\<close>

definition forwarder_fetch ::
    "(string \<Rightarrow> string \<Rightarrow> string) \<Rightarrow> real \<Rightarrow> (nat \<Rightarrow> outcome)
      \<Rightarrow> ForwarderEnv \<Rightarrow> Request \<Rightarrow> js_error + Forwarded" where
  "forwarder_fetch hmac rnd up env request =
     (if pathname request = ''/__health''
      then Inr \<lparr>response = \<lparr>status = 200, resp_body = Some ''ok''\<rparr>, upstream = []\<rparr>
      else if js_gt (Fin rnd) (sampleRate env)
      then Inr \<lparr>response = \<lparr>status = 204, resp_body = None\<rparr>, upstream = []\<rparr>
      else forward hmac up env request)"

text \<open>The upstream calls of a run of the handler: none when it raised.\<close>

definition upstreamCalls :: "js_error + Forwarded \<Rightarrow> UpstreamCall list" where
  "upstreamCalls r = (case r of Inl e \<Rightarrow> [] | Inr f \<Rightarrow> upstream f)"

section \<open>Pipeline A: histories of the sink client\<close>

text \<open>The outcomes on which \<open>flush\<close> takes its failure path.\<close>

definition isFailure :: "outcome \<Rightarrow> bool" where
  "isFailure out = (out = Threw \<or> out = Resp 429 \<or> out = Resp 403)"

text \<open>The log objects a history pushes, in order, and the events that settle a POST.\<close>

fun captured :: "'e event list \<Rightarrow> 'e list" where
  "captured [] = []"
| "captured (Capture ev env now # es) = ev # captured es"
| "captured (TimerFires i now # es) = captured es"
| "captured (PostSettles i out rnd now # es) = captured es"

fun isSettle :: "'e event \<Rightarrow> bool" where
  "isSettle (PostSettles i out rnd now) = True"
| "isSettle _ = False"

section \<open>Example inputs\<close>

text \<open>Concrete environments and requests, at which the theorems below are instantiated.\<close>

definition demo_env :: ForwarderEnv where
  "demo_env =
     \<lparr>INGEST_URL = ''https://ingest.example/v1'', TENANT_KEY = ''t1'', SAMPLE_RATE = None,
      REDACT_HEADERS = None, SIGN_BODY = None, REQUEST_TIMEOUT_MS = None\<rparr>"

definition demo_request :: Request where
  "demo_request =
     \<lparr>pathname = ''/events'',
      headers = [''cookie'' \<mapsto> ''sid=1'', ''user-agent'' \<mapsto> ''curl/8''],
      body = None, bodyFails = False\<rparr>"

text \<open>A sink configuration that flushes at every capture.\<close>

definition demo_sink :: Env where
  "demo_sink =
     \<lparr>CLARITY_ENDPOINT = Some ''https://sink.example/collect'', BATCH_MS = None,
      BATCH_MAX_REQUESTS = Some ''1'', BACKOFF_BASE_MS = None, BACKOFF_MAX_MS = None\<rparr>"

text \<open>A sink configuration with the default batch size, 200.\<close>

definition quiet_sink :: Env where
  "quiet_sink = demo_sink\<lparr>BATCH_MAX_REQUESTS := None\<rparr>"

text \<open>A sink configuration whose backoff base is above its maximum.\<close>

definition steep_sink :: Env where
  "steep_sink = demo_sink\<lparr>BACKOFF_BASE_MS := Some ''100000''\<rparr>"

section \<open>Rounding\<close>

lemma pow2_pos: "0 < pow2 k"
  by (simp add: pow2_def)

lemma roundEven_of_int: "roundEven (of_int m) = m"
  by (simp add: roundEven_def)

lemma expo_of_int: "n \<noteq> 0 \<Longrightarrow> expo (of_int n) = bitlen \<bar>n\<bar> - 1"
proof -
  assume "n \<noteq> 0"
  then have "1 \<le> \<bar>n\<bar>" by simp
  then have "(1::real) \<le> \<bar>of_int n\<bar>" by (metis of_int_1_le_iff of_int_abs)
  moreover have "\<lfloor>\<bar>real_of_int n\<bar>\<rfloor> = \<bar>n\<bar>" by (metis of_int_abs floor_of_int)
  ultimately show ?thesis by (simp add: expo_def)
qed

text \<open>The exponent is the one that brackets the magnitude.\<close>

lemma expo_bounds:
  assumes "x \<noteq> 0"
  shows "pow2 (expo x) \<le> \<bar>x\<bar> \<and> \<bar>x\<bar> < pow2 (expo x + 1)"
proof (cases "1 \<le> \<bar>x\<bar>")
  case True
  let ?m = "\<lfloor>\<bar>x\<bar>\<rfloor>"
  from True have m: "0 < ?m" by linarith
  let ?b = "bitlen ?m"
  from bitlen_bounds [OF m] have lo: "2 ^ nat (?b - 1) \<le> ?m" and hi: "?m < 2 ^ nat ?b" by simp_all
  from m have b1: "1 \<le> ?b" by (simp add: bitlen_ge_iff_power)
  have e: "expo x = ?b - 1" using True by (simp add: expo_def)
  have "real_of_int (2 ^ nat (?b - 1)) \<le> real_of_int ?m" using lo by (simp only: of_int_le_iff)
  also have "\<dots> \<le> \<bar>x\<bar>" by simp
  finally have a: "pow2 (expo x) \<le> \<bar>x\<bar>" using b1 by (simp add: e pow2_def)
  from hi have "?m + 1 \<le> 2 ^ nat ?b" by simp
  then have "real_of_int (?m + 1) \<le> real_of_int (2 ^ nat ?b)" by (simp only: of_int_le_iff)
  then have "real_of_int ?m + 1 \<le> 2 ^ nat ?b" by simp
  moreover have "\<bar>x\<bar> < real_of_int ?m + 1" by linarith
  ultimately have "\<bar>x\<bar> < 2 ^ nat ?b" by linarith
  then have "\<bar>x\<bar> < pow2 (expo x + 1)" using b1 by (simp add: e pow2_def)
  with a show ?thesis ..
next
  case False
  then have lt: "\<bar>x\<bar> < 1" by simp
  from assms have pos: "0 < \<bar>x\<bar>" by simp
  let ?c = "\<lceil>1 / \<bar>x\<bar>\<rceil>"
  from lt pos have "1 < 1 / \<bar>x\<bar>" by simp
  then have c2: "2 \<le> ?c" by linarith
  then have c1: "0 < ?c - 1" by simp
  let ?b = "bitlen (?c - 1)"
  from bitlen_bounds [OF c1] have lo: "2 ^ nat (?b - 1) \<le> ?c - 1" and hi: "?c - 1 < 2 ^ nat ?b"
    by simp_all
  from c1 have b1: "1 \<le> ?b" by (simp add: bitlen_ge_iff_power)
  have e: "expo x = - ?b" using False by (simp add: expo_def)
  from hi have "?c \<le> 2 ^ nat ?b" by simp
  then have "real_of_int ?c \<le> real_of_int (2 ^ nat ?b)" by (simp only: of_int_le_iff)
  then have "real_of_int ?c \<le> 2 ^ nat ?b" by simp
  moreover have "1 / \<bar>x\<bar> \<le> real_of_int ?c" by (rule le_of_int_ceiling)
  ultimately have "1 / \<bar>x\<bar> \<le> 2 ^ nat ?b" by (rule order_trans [rotated])
  then have "1 \<le> 2 ^ nat ?b * \<bar>x\<bar>" using pos by (simp add: field_simps)
  then have "1 / 2 ^ nat ?b \<le> \<bar>x\<bar>" by (simp add: field_simps)
  then have a: "pow2 (expo x) \<le> \<bar>x\<bar>" using b1 by (simp add: e pow2_def)
  have cl: "real_of_int ?c - 1 < 1 / \<bar>x\<bar>" by linarith
  have "real_of_int (2 ^ nat (?b - 1)) \<le> real_of_int (?c - 1)"
    using lo by (simp only: of_int_le_iff)
  then have "2 ^ nat (?b - 1) \<le> real_of_int ?c - 1" by simp
  with cl have "2 ^ nat (?b - 1) < 1 / \<bar>x\<bar>" by linarith
  then have "2 ^ nat (?b - 1) * \<bar>x\<bar> < 1" using pos by (simp add: field_simps)
  then have x: "\<bar>x\<bar> < 1 / 2 ^ nat (?b - 1)" by (simp add: field_simps)
  have "pow2 (expo x + 1) = 1 / 2 ^ nat (?b - 1)"
  proof (cases "?b = 1")
    case True
    then show ?thesis by (simp add: e pow2_def)
  next
    case False
    with b1 have "1 < ?b" by simp
    then have "nat (- (1 - ?b)) = nat (?b - 1)" by simp
    with \<open>1 < ?b\<close> show ?thesis by (simp add: e pow2_def)
  qed
  with x have "\<bar>x\<bar> < pow2 (expo x + 1)" by simp
  with a show ?thesis ..
qed

text \<open>Every integer of magnitude up to \<open>2^53\<close> is a double.\<close>

lemma fl_of_int:
  assumes "\<bar>n\<bar> \<le> 2 ^ 53"
  shows "fl (of_int n) = Fin (of_int n)"
proof (cases "n = 0")
  case True
  then show ?thesis by (simp add: fl_def)
next
  case False
  let ?b = "bitlen \<bar>n\<bar>"
  let ?x = "real_of_int n"
  from False have pos: "0 < \<bar>n\<bar>" by simp
  have b1: "1 \<le> ?b" using pos by (simp add: bitlen_ge_iff_power)
  have "\<bar>n\<bar> < 2 ^ 54" using assms by (simp add: order_le_less_trans)
  then have b54: "?b \<le> 54" by (simp add: bitlen_le_iff_power)
  have e: "expo ?x = ?b - 1" using False by (rule expo_of_int)
  let ?u = "pow2 (max (expo ?x) (- 1022) - 52)"
  have u: "?u = pow2 (?b - 53)" using e b1 by (simp add: max_def)
  have "\<exists>m::int. ?x / ?u = of_int m"
  proof (cases "?b \<le> 53")
    case True
    then have "pow2 (?b - 53) = 1 / 2 ^ nat (53 - ?b)"
      by (cases "?b = 53") (simp_all add: pow2_def)
    then have "?x / ?u = of_int (n * 2 ^ nat (53 - ?b))" by (simp add: u)
    then show ?thesis ..
  next
    case False
    with b54 have b: "?b = 54" by simp
    then have "54 \<le> ?b" by simp
    then have "2 ^ 53 \<le> \<bar>n\<bar>" by (simp add: bitlen_ge_iff_power)
    with assms have n: "\<bar>n\<bar> = 2 ^ 53" by simp
    have "pow2 (?b - 53) = 2" by (simp add: b pow2_def)
    with u have "?u = 2" by simp
    moreover from n have "even \<bar>n\<bar>" by simp
    then have "even n" by simp
    then have "n = 2 * (n div 2)" by simp
    then have "?x = 2 * of_int (n div 2)" by (metis of_int_mult of_int_numeral)
    ultimately have "?x / ?u = of_int (n div 2)" by simp
    then show ?thesis ..
  qed
  then obtain m :: int where m: "?x / ?u = of_int m" ..
  have u0: "?u \<noteq> 0" using pow2_pos [of "max (expo ?x) (- 1022) - 52"] by simp
  have "?u * of_int (roundEven (?x / ?u)) = ?u * of_int m"
    by (simp only: m roundEven_of_int)
  also have "\<dots> = ?u * (?x / ?u)" by (simp only: m)
  also have "\<dots> = ?x" using u0 by simp
  finally have y: "?u * of_int (roundEven (?x / ?u)) = ?x" .
  have "\<bar>?x\<bar> \<le> 2 ^ 53" using assms by (metis of_int_abs of_int_le_iff of_int_numeral of_int_power)
  also have "\<dots> < (2::real) ^ 1024" by simp
  finally have small: "\<not> 2 ^ 1024 \<le> \<bar>?x\<bar>" by simp
  from False have x0: "?x \<noteq> 0" by simp
  show ?thesis
    unfolding fl_def using x0 small y by (simp add: Let_def)
qed

lemma fl_0 [simp]: "fl 0 = Fin 0"
  by (simp add: fl_def)

lemma fl_1 [simp]: "fl 1 = Fin 1"
  using fl_of_int [of 1] by simp

lemma fl_numeral [simp]: "numeral k \<le> (2 ^ 53 :: int) \<Longrightarrow> fl (numeral k) = Fin (numeral k)"
  using fl_of_int [of "numeral k"] by simp

lemma fl_neg_numeral [simp]:
  "numeral k \<le> (2 ^ 53 :: int) \<Longrightarrow> fl (- numeral k) = Fin (- numeral k)"
  using fl_of_int [of "- numeral k"] by simp

section \<open>The retry loop of Pipeline B\<close>

lemma iteration_None: "iteration attempt out = None \<Longrightarrow> attempt \<le> RETRIES + 1"
  by (auto simp: iteration_def tryBlock_def newResponse_def
      split: outcome.splits sum.splits if_splits)

lemma retryLoop_Some:
  "iteration (Suc a) (up (Suc a)) = Some r \<Longrightarrow> retryLoop up a = (r, [Suc a])"
  by (simp add: retryLoop.simps [of up a])

lemma retryLoop_None:
  "iteration (Suc a) (up (Suc a)) = None \<Longrightarrow>
     retryLoop up a = (fst (retryLoop up (Suc a)), Suc a # snd (retryLoop up (Suc a)))"
  by (simp add: retryLoop.simps [of up a] split: prod.splits)

text \<open>
  From any value of the counter, the loop calls upstream at the next values of the
  counter, one by one, at least once, and not beyond \<open>RETRIES + 2\<close>.
\<close>

lemma retryLoop_calls:
  "\<exists>n. snd (retryLoop up a) = [Suc a ..< Suc a + n] \<and> 1 \<le> n \<and>
       a + n \<le> max (Suc a) (RETRIES + 2)"
proof (induction up a rule: retryLoop.induct)
  case (1 up attempt)
  show ?case
  proof (cases "iteration (Suc attempt) (up (Suc attempt))")
    case (Some r')
    then have "snd (retryLoop up attempt) = [Suc attempt ..< Suc attempt + 1]"
      by (simp add: retryLoop_Some)
    then show ?thesis by (intro exI [of _ 1]) simp
  next
    case None
    from None have le: "Suc attempt \<le> RETRIES + 1" by (rule iteration_None)
    from None have "iteration (attempt + 1) (up (attempt + 1)) = None" by simp
    from "1.IH" [OF refl this]
    obtain n where cs: "snd (retryLoop up (Suc attempt)) = [Suc (Suc attempt) ..< Suc (Suc attempt) + n]"
      and n: "1 \<le> n" "Suc attempt + n \<le> max (Suc (Suc attempt)) (RETRIES + 2)"
      by auto
    have "snd (retryLoop up attempt) = Suc attempt # [Suc (Suc attempt) ..< Suc (Suc attempt) + n]"
      using None by (simp add: retryLoop_None [of attempt up] cs)
    also have "\<dots> = [Suc attempt ..< Suc attempt + Suc n]"
      by (simp add: upt_conv_Cons)
    finally have "snd (retryLoop up attempt) = [Suc attempt ..< Suc attempt + Suc n]" .
    moreover have "1 \<le> Suc n" by simp
    moreover from n le have "attempt + Suc n \<le> max (Suc attempt) (RETRIES + 2)" by simp
    ultimately show ?thesis by blast
  qed
qed

lemma retryLoop_from_0:
  "\<exists>n. snd (retryLoop up 0) = [1 ..< Suc n] \<and> 1 \<le> n \<and> n \<le> RETRIES + 2"
proof -
  from retryLoop_calls [of up 0]
  obtain n where "snd (retryLoop up 0) = [Suc 0 ..< Suc 0 + n]" "1 \<le> n"
    "0 + n \<le> max (Suc 0) (RETRIES + 2)" by blast
  then have "snd (retryLoop up 0) = [1 ..< Suc n] \<and> 1 \<le> n \<and> n \<le> RETRIES + 2"
    by (simp del: upt_Suc)
  then show ?thesis ..
qed

text \<open>What the handler returns past the gate, when nothing is raised before the loop.\<close>

lemma forward_result:
  assumes "forward hmac up env request = Inr f"
  shows "response f = fst (retryLoop up 0) \<and>
         length (upstream f) = length (snd (retryLoop up 0))"
  using assms
  by (auto simp: forward_def thenDo_def Let_def split: sum.splits prod.splits if_splits)

lemma upstreamCalls_bound:
  "length (upstreamCalls (forwarder_fetch hmac rnd up env request)) \<le> RETRIES + 2"
proof (cases "forwarder_fetch hmac rnd up env request")
  case (Inl e)
  then show ?thesis by (simp add: upstreamCalls_def)
next
  case (Inr f)
  from retryLoop_from_0 [of up]
  obtain n where "snd (retryLoop up 0) = [1 ..< Suc n]" "n \<le> RETRIES + 2" by blast
  then have l: "length (snd (retryLoop up 0)) \<le> RETRIES + 2" by simp
  have "length (upstream f) \<le> RETRIES + 2"
  proof (cases "forwarder_fetch hmac rnd up env request = forward hmac up env request")
    case True
    with Inr forward_result [of hmac up env request f] l show ?thesis by simp
  next
    case False
    with Inr have "upstream f = []"
      by (auto simp: forwarder_fetch_def split: if_splits)
    then show ?thesis by simp
  qed
  with Inr show ?thesis by (simp add: upstreamCalls_def)
qed

text \<open>
  Claim C10. Whatever the upstream calls do (a status, a transport error, a timeout),
  the retry loop returns a response; the attempt counter takes the values 1, 2, ... in
  turn, one upstream call at each, and there are at most \<open>RETRIES + 2\<close> of them, also
  for the handler as a whole.
\<close>

theorem retry_loop_returns_within_bound:
  "\<exists>r calls. retryLoop up 0 = (r, calls) \<and>
     calls = [1 ..< Suc (length calls)] \<and> sorted_wrt (<) calls \<and>
     1 \<le> length calls \<and> length calls \<le> RETRIES + 2 \<and>
     length (upstreamCalls (forwarder_fetch hmac rnd up env request)) \<le> RETRIES + 2"
proof -
  from retryLoop_from_0 [of up]
  obtain n where cs: "snd (retryLoop up 0) = [1 ..< Suc n]" and n: "1 \<le> n" "n \<le> RETRIES + 2"
    by blast
  have len: "length [1 ..< Suc n] = n" by simp
  have "retryLoop up 0 = (fst (retryLoop up 0), [1 ..< Suc n])"
    using cs by (metis prod.collapse)
  moreover have "[1 ..< Suc n] = [1 ..< Suc (length [1 ..< Suc n])]"
    by (simp only: len)
  moreover have "sorted_wrt (<) [1 ..< Suc n]"
    by (rule sorted_wrt_upt)
  moreover have "1 \<le> length [1 ..< Suc n]" "length [1 ..< Suc n] \<le> RETRIES + 2"
    using n by (simp_all only: len)
  moreover note upstreamCalls_bound [of hmac rnd up env request]
  ultimately show ?thesis by blast
qed

section \<open>The handler at the example inputs\<close>

lemma Number_examples:
  "Number ''1.0'' = Fin 1" "Number ''0'' = Fin 0" "Number ''abc'' = NaN"
  by (simp_all add: Number_def trim_def isWhiteSpace_def nonDecimalLiteral_def
      strDecimalLiteral_def isDigit_def exponentPart_def digitsValue_def scale10_def)

lemma sampleRate_demo_env: "sampleRate demo_env = Fin 1"
  by (simp add: sampleRate_def demo_env_def Number_examples clamp_def)

lemma redactSet_demo_env: "redactSet demo_env = [''authorization'', ''cookie'']"
  by (simp add: redactSet_def demo_env_def newSet_def toLowerCase_def trim_def lowerChar_def
      isWhiteSpace_def)

lemma marker_is_value:
  "normalizeValue ''__REDACTED__'' = ''__REDACTED__''" "isHeaderValue ''__REDACTED__''"
  by (simp_all add: normalizeValue_def isHttpWhitespace_def isHeaderValue_def)

lemma fixed_values:
  "normalizeValue UA = UA" "isHeaderValue UA"
  "normalizeValue ''application/json'' = ''application/json''"
  "isHeaderValue ''application/json''"
  by (simp_all add: UA_def normalizeValue_def isHttpWhitespace_def isHeaderValue_def)

lemma fixed_names:
  "isHeaderName ''x-tenant-key''" "isHeaderName ''user-agent''"
  "isHeaderName ''content-type''" "isHeaderName ''x-signature''"
  by (simp_all add: isHeaderName_def isTchar_def)

lemma byteLower_consts:
  "byteLower ''x-tenant-key'' = ''x-tenant-key''"
  "byteLower ''user-agent'' = ''user-agent''"
  "byteLower ''content-type'' = ''content-type''"
  "byteLower ''x-signature'' = ''x-signature''"
  by (simp_all add: byteLower_def)

text \<open>The redaction loop goes through exactly when every name is an HTTP token.\<close>

lemma redactHeaders_ok:
  "list_all isHeaderName rs \<Longrightarrow> \<exists>fh. redactHeaders rs h = Inr fh"
proof (induction rs arbitrary: h)
  case Nil
  then show ?case by simp
next
  case (Cons r rs)
  then have r: "isHeaderName r" and rs: "list_all isHeaderName rs" by simp_all
  show ?case
  proof (cases "h (byteLower r) \<noteq> None")
    case True
    with r have "redactHeaders (r # rs) h = redactHeaders rs (h(byteLower r \<mapsto> ''__REDACTED__''))"
      by (simp add: h_has_def h_set_def marker_is_value)
    with Cons.IH [OF rs] show ?thesis by simp
  next
    case False
    with r have "redactHeaders (r # rs) h = redactHeaders rs h"
      by (simp add: h_has_def)
    with Cons.IH [OF rs] show ?thesis by simp
  qed
qed

lemma forwardHeaders_ok:
  assumes "list_all isHeaderName (redactSet env)"
    and "isHeaderValue (normalizeValue (TENANT_KEY env))"
  shows "\<exists>fh. forwardHeaders env h = Inr fh"
proof -
  from redactHeaders_ok [OF assms(1)] obtain fh where "redactHeaders (redactSet env) h = Inr fh"
    by blast
  with assms(2) show ?thesis
    by (simp add: forwardHeaders_def thenDo_def h_set_def h_get_def fixed_names fixed_values
        Let_def)
qed

lemma forward_ok:
  assumes "list_all isHeaderName (redactSet env)"
    and "isHeaderValue (normalizeValue (TENANT_KEY env))"
    and "\<not> signEnabled env"
  shows "\<exists>f. forward hmac up env request = Inr f"
proof -
  from forwardHeaders_ok [OF assms(1,2)]
  obtain fh where "forwardHeaders env (headers request) = Inr fh" by blast
  with assms(3) show ?thesis
    by (simp add: forward_def thenDo_def Let_def split: prod.splits)
qed

lemma demo_env_ok:
  "list_all isHeaderName (redactSet (demo_env\<lparr>SAMPLE_RATE := r\<rparr>))"
  "isHeaderValue (normalizeValue (TENANT_KEY (demo_env\<lparr>SAMPLE_RATE := r\<rparr>)))"
  "\<not> signEnabled (demo_env\<lparr>SAMPLE_RATE := r\<rparr>)"
proof -
  have "redactSet (demo_env\<lparr>SAMPLE_RATE := r\<rparr>) = redactSet demo_env"
    by (simp add: redactSet_def demo_env_def)
  then show "list_all isHeaderName (redactSet (demo_env\<lparr>SAMPLE_RATE := r\<rparr>))"
    by (simp add: redactSet_demo_env isHeaderName_def isTchar_def)
  show "isHeaderValue (normalizeValue (TENANT_KEY (demo_env\<lparr>SAMPLE_RATE := r\<rparr>)))"
    by (simp add: demo_env_def normalizeValue_def isHttpWhitespace_def isHeaderValue_def)
  show "\<not> signEnabled (demo_env\<lparr>SAMPLE_RATE := r\<rparr>)"
    by (simp add: signEnabled_def demo_env_def toLowerCase_def lowerChar_def)
qed

lemma demo_env_rate_None: "demo_env\<lparr>SAMPLE_RATE := None\<rparr> = demo_env"
  by (simp add: demo_env_def)

lemmas demo_ok = demo_env_ok [of None, unfolded demo_env_rate_None]

lemma pathname_demo_request: "pathname demo_request \<noteq> ''/__health''"
  by (simp add: demo_request_def)

text \<open>
  Claim C1 does not hold of the code. With \<open>RETRIES = 2\<close> and status 500 at every
  attempt the loop calls upstream four times (the guard is
  \<open>attempt <= RETRIES + 1\<close> after the increment), not three; the response carries the
  last status, 500.
\<close>

theorem retry_on_500_calls_upstream_four_times:
  "retryLoop (\<lambda>k. Resp 500) 0 = (\<lparr>status = 500, resp_body = None\<rparr>, [1, 2, 3, 4]) \<and>
   RETRIES = 2 \<and>
   length (upstreamCalls (forwarder_fetch (\<lambda>k b. []) 0 (\<lambda>k. Resp 500)
      demo_env demo_request)) = 4 \<and>
   map_sum id (\<lambda>f. status (response f)) (forwarder_fetch (\<lambda>k b. []) 0 (\<lambda>k. Resp 500)
      demo_env demo_request) = Inr 500"
proof -
  let ?up = "\<lambda>k::nat. Resp 500"
  have l: "retryLoop ?up 0 = (\<lparr>status = 500, resp_body = None\<rparr>, [1, 2, 3, 4])"
    by code_simp
  have g: "forwarder_fetch (\<lambda>k b. []) 0 ?up demo_env demo_request
             = forward (\<lambda>k b. []) ?up demo_env demo_request"
    by (simp add: forwarder_fetch_def pathname_demo_request sampleRate_demo_env js_gt_def)
  from forward_ok [OF demo_ok]
  obtain f where f: "forward (\<lambda>k b. []) ?up demo_env demo_request = Inr f"
    by blast
  from forward_result [OF f] l have "status (response f) = 500" "length (upstream f) = 4"
    by simp_all
  with l g f show ?thesis
    by (simp add: upstreamCalls_def RETRIES_def)
qed

section \<open>The sampling gate of Pipeline B\<close>

lemma forward_calls_upstream:
  assumes "forward hmac up env request = Inr f"
  shows "upstream f \<noteq> []"
proof -
  from retryLoop_from_0 [of up]
  obtain n where "snd (retryLoop up 0) = [1 ..< Suc n]" "1 \<le> n" by blast
  then have "snd (retryLoop up 0) \<noteq> []" by auto
  with forward_result [OF assms] show ?thesis by auto
qed

lemma forward_ignores_rate:
  "forward hmac up (env\<lparr>SAMPLE_RATE := r\<rparr>) request = forward hmac up env request"
  by (simp add: forward_def forwardHeaders_def redactSet_def signEnabled_def timeoutMs_def
      cong: if_cong)

lemma rejected_is_204:
  assumes "pathname request \<noteq> ''/__health''"
    and "js_gt (Fin rnd) (sampleRate env)"
  shows "forwarder_fetch hmac rnd up env request =
           Inr \<lparr>response = \<lparr>status = 204, resp_body = None\<rparr>, upstream = []\<rparr>"
  using assms by (simp add: forwarder_fetch_def)

lemma admitted_goes_on:
  assumes "pathname request \<noteq> ''/__health''"
    and "\<not> js_gt (Fin rnd) (sampleRate env)"
  shows "forwarder_fetch hmac rnd up env request = forward hmac up env request"
  using assms by (simp add: forwarder_fetch_def)

lemma retryLoop_200:
  "retryLoop (\<lambda>k. Resp 200) 0 = (\<lparr>status = 200, resp_body = None\<rparr>, [1])"
  by code_simp

text \<open>
  Claim C2 as stated fails at one point: with the rate 0 and the random value 0 the
  guard \<open>Math.random() > rate\<close> is false, and the call goes past the gate and
  upstream.
\<close>

theorem rate_zero_admits_random_zero:
  "sampleRate (demo_env\<lparr>SAMPLE_RATE := Some ''0''\<rparr>) = Fin 0 \<and>
   map_sum id (\<lambda>f. (status (response f), length (upstream f)))
     (forwarder_fetch (\<lambda>k b. []) 0 (\<lambda>k. Resp 200)
        (demo_env\<lparr>SAMPLE_RATE := Some ''0''\<rparr>) demo_request)
     = Inr (200, 1)"
proof -
  let ?env = "demo_env\<lparr>SAMPLE_RATE := Some ''0''\<rparr>"
  let ?up = "\<lambda>k::nat. Resp 200"
  have r: "sampleRate ?env = Fin 0"
    by (simp add: sampleRate_def Number_examples clamp_def)
  then have "\<not> js_gt (Fin 0) (sampleRate ?env)" by (simp add: js_gt_def)
  from admitted_goes_on [OF pathname_demo_request this]
  have g: "forwarder_fetch (\<lambda>k b. []) 0 ?up ?env demo_request
             = forward (\<lambda>k b. []) ?up ?env demo_request" .
  from forward_ok [OF demo_env_ok]
  obtain f where f: "forward (\<lambda>k b. []) ?up ?env demo_request = Inr f" by blast
  from forward_result [OF f] retryLoop_200
  have "status (response f) = 200" "length (upstream f) = 1" by simp_all
  with r g f show ?thesis by simp
qed

text \<open>
  Claim C2, amended. For a call that reaches the gate (any path but the health path),
  with \<open>rnd\<close> in \<open>[0,1)\<close> the value drawn: at rate 1 the call is admitted, that is, the
  handler goes on past the gate (where it calls upstream at least once unless it
  raises first); at rate 0 every call with \<open>rnd > 0\<close> is rejected; a rate that is NaN
  is clamped to 0 and the handler does what it does at rate 0; every rejected call
  gets the 204 response with no body and no upstream call.
\<close>

theorem sampling_gate:
  assumes "pathname request \<noteq> ''/__health''" and "0 \<le> rnd" and "rnd < 1"
  shows
    "(Number (case SAMPLE_RATE env of None \<Rightarrow> ''1.0'' | Some s \<Rightarrow> s) = Fin 1 \<longrightarrow>
        forwarder_fetch hmac rnd up env request = forward hmac up env request) \<and>
     (Number (case SAMPLE_RATE env of None \<Rightarrow> ''1.0'' | Some s \<Rightarrow> s) = Fin 0 \<and> 0 < rnd \<longrightarrow>
        forwarder_fetch hmac rnd up env request =
          Inr \<lparr>response = \<lparr>status = 204, resp_body = None\<rparr>, upstream = []\<rparr>) \<and>
     (Number (case SAMPLE_RATE env of None \<Rightarrow> ''1.0'' | Some s \<Rightarrow> s) = NaN \<longrightarrow>
        sampleRate env = Fin 0 \<and>
        forwarder_fetch hmac rnd up env request =
          forwarder_fetch hmac rnd up (env\<lparr>SAMPLE_RATE := Some ''0''\<rparr>) request) \<and>
     (js_gt (Fin rnd) (sampleRate env) \<longrightarrow>
        forwarder_fetch hmac rnd up env request =
          Inr \<lparr>response = \<lparr>status = 204, resp_body = None\<rparr>, upstream = []\<rparr>) \<and>
     (\<forall>f. forward hmac up env request = Inr f \<longrightarrow> upstream f \<noteq> [])"
proof (intro conjI impI allI)
  assume "Number (case SAMPLE_RATE env of None \<Rightarrow> ''1.0'' | Some s \<Rightarrow> s) = Fin 1"
  then have "sampleRate env = Fin 1" by (simp add: sampleRate_def clamp_def)
  with assms have "\<not> js_gt (Fin rnd) (sampleRate env)" by (simp add: js_gt_def)
  with assms(1) show "forwarder_fetch hmac rnd up env request = forward hmac up env request"
    by (rule admitted_goes_on)
next
  assume "Number (case SAMPLE_RATE env of None \<Rightarrow> ''1.0'' | Some s \<Rightarrow> s) = Fin 0 \<and> 0 < rnd"
  then have "sampleRate env = Fin 0" "0 < rnd" by (simp_all add: sampleRate_def clamp_def)
  then have "js_gt (Fin rnd) (sampleRate env)" by (simp add: js_gt_def)
  with assms(1) show "forwarder_fetch hmac rnd up env request =
          Inr \<lparr>response = \<lparr>status = 204, resp_body = None\<rparr>, upstream = []\<rparr>"
    by (rule rejected_is_204)
next
  assume "Number (case SAMPLE_RATE env of None \<Rightarrow> ''1.0'' | Some s \<Rightarrow> s) = NaN"
  then show "sampleRate env = Fin 0" by (simp add: sampleRate_def clamp_def)
next
  assume "Number (case SAMPLE_RATE env of None \<Rightarrow> ''1.0'' | Some s \<Rightarrow> s) = NaN"
  then have "sampleRate env = Fin 0" by (simp add: sampleRate_def clamp_def)
  moreover have "sampleRate (env\<lparr>SAMPLE_RATE := Some ''0''\<rparr>) = Fin 0"
    by (simp add: sampleRate_def Number_examples clamp_def)
  ultimately show "forwarder_fetch hmac rnd up env request =
          forwarder_fetch hmac rnd up (env\<lparr>SAMPLE_RATE := Some ''0''\<rparr>) request"
    by (simp add: forwarder_fetch_def forward_ignores_rate)
next
  assume "js_gt (Fin rnd) (sampleRate env)"
  with assms(1) show "forwarder_fetch hmac rnd up env request =
          Inr \<lparr>response = \<lparr>status = 204, resp_body = None\<rparr>, upstream = []\<rparr>"
    by (rule rejected_is_204)
next
  fix f assume "forward hmac up env request = Inr f"
  then show "upstream f \<noteq> []" by (rule forward_calls_upstream)
qed

theorem sampling_gate_witness:
  "forwarder_fetch (\<lambda>k b. []) (1 / 2) (\<lambda>k. Resp 200) demo_env demo_request
     = forward (\<lambda>k b. []) (\<lambda>k. Resp 200) demo_env demo_request \<and>
   (\<exists>f. forward (\<lambda>k b. []) (\<lambda>k. Resp 200) demo_env demo_request = Inr f \<and>
        upstream f \<noteq> []) \<and>
   forwarder_fetch (\<lambda>k b. []) (1 / 2) (\<lambda>k. Resp 200)
       (demo_env\<lparr>SAMPLE_RATE := Some ''0''\<rparr>) demo_request
     = Inr \<lparr>response = \<lparr>status = 204, resp_body = None\<rparr>, upstream = []\<rparr> \<and>
   forwarder_fetch (\<lambda>k b. []) (1 / 2) (\<lambda>k. Resp 200)
       (demo_env\<lparr>SAMPLE_RATE := Some ''abc''\<rparr>) demo_request
     = forwarder_fetch (\<lambda>k b. []) (1 / 2) (\<lambda>k. Resp 200)
       (demo_env\<lparr>SAMPLE_RATE := Some ''abc'', SAMPLE_RATE := Some ''0''\<rparr>) demo_request"
proof -
  let ?up = "\<lambda>k::nat. Resp 200"
  let ?h = "\<lambda>(k::string) (b::string). ([]::string)"
  have r: "(0::real) \<le> 1 / 2" "(1::real) / 2 < 1" by simp_all
  note g = sampling_gate [OF pathname_demo_request r, where hmac = ?h and up = ?up]
  have n1: "Number (case SAMPLE_RATE demo_env of None \<Rightarrow> ''1.0'' | Some s \<Rightarrow> s) = Fin 1"
    by (simp add: demo_env_def Number_examples)
  have n0: "Number (case SAMPLE_RATE (demo_env\<lparr>SAMPLE_RATE := Some ''0''\<rparr>) of
                      None \<Rightarrow> ''1.0'' | Some s \<Rightarrow> s) = Fin 0 \<and> (0::real) < 1 / 2"
    by (simp add: Number_examples)
  have nn: "Number (case SAMPLE_RATE (demo_env\<lparr>SAMPLE_RATE := Some ''abc''\<rparr>) of
                      None \<Rightarrow> ''1.0'' | Some s \<Rightarrow> s) = NaN"
    by (simp add: Number_examples)
  from g [of demo_env] n1
  have a: "forwarder_fetch ?h (1 / 2) ?up demo_env demo_request
             = forward ?h ?up demo_env demo_request" by blast
  from forward_ok [OF demo_ok]
  obtain f where f: "forward ?h ?up demo_env demo_request = Inr f"
    by blast
  with g [of demo_env] have "upstream f \<noteq> []" by blast
  with f have b: "\<exists>f. forward ?h ?up demo_env demo_request = Inr f \<and> upstream f \<noteq> []"
    by blast
  from g [of "demo_env\<lparr>SAMPLE_RATE := Some ''0''\<rparr>"] n0
  have c: "forwarder_fetch ?h (1 / 2) ?up (demo_env\<lparr>SAMPLE_RATE := Some ''0''\<rparr>) demo_request
     = Inr \<lparr>response = \<lparr>status = 204, resp_body = None\<rparr>, upstream = []\<rparr>" by blast
  from g [of "demo_env\<lparr>SAMPLE_RATE := Some ''abc''\<rparr>"] nn
  have d: "forwarder_fetch ?h (1 / 2) ?up (demo_env\<lparr>SAMPLE_RATE := Some ''abc''\<rparr>) demo_request
     = forwarder_fetch ?h (1 / 2) ?up
       (demo_env\<lparr>SAMPLE_RATE := Some ''abc'', SAMPLE_RATE := Some ''0''\<rparr>) demo_request"
    by blast
  show ?thesis
    by (intro conjI) (rule a, rule b, rule c, rule d)
qed

section \<open>Numeric configuration\<close>

lemma toNumber_absent: "toNumber None fallback = fallback"
  by (simp add: toNumber_def)

lemma toNumber_unparsable: "parseInt s = NaN \<Longrightarrow> toNumber (Some s) fallback = fallback"
  by (simp add: toNumber_def)

lemma toNumber_finite: "isFinite fallback \<Longrightarrow> isFinite (toNumber v fallback)"
  by (simp add: toNumber_def Let_def)

text \<open>
  The four fields of Pipeline A go through \<open>toNumber\<close>: each is finite, and is its
  default when the override is absent or does not parse.
\<close>

lemma cfg_finite:
  "isFinite (batchMs (cfg env)) \<and> isFinite (batchMax (cfg env)) \<and>
   isFinite (backoffBase (cfg env)) \<and> isFinite (backoffMax (cfg env))"
  by (simp add: cfg_def toNumber_finite default_BATCH_MS_def default_BATCH_MAX_REQUESTS_def
      default_BACKOFF_BASE_MS_def default_BACKOFF_MAX_MS_def)

lemma cfg_defaults:
  "(BATCH_MS env = None \<or> (\<exists>s. BATCH_MS env = Some s \<and> parseInt s = NaN)
      \<longrightarrow> batchMs (cfg env) = Fin 20000) \<and>
   (BATCH_MAX_REQUESTS env = None \<or> (\<exists>s. BATCH_MAX_REQUESTS env = Some s \<and> parseInt s = NaN)
      \<longrightarrow> batchMax (cfg env) = Fin 200) \<and>
   (BACKOFF_BASE_MS env = None \<or> (\<exists>s. BACKOFF_BASE_MS env = Some s \<and> parseInt s = NaN)
      \<longrightarrow> backoffBase (cfg env) = Fin 2000) \<and>
   (BACKOFF_MAX_MS env = None \<or> (\<exists>s. BACKOFF_MAX_MS env = Some s \<and> parseInt s = NaN)
      \<longrightarrow> backoffMax (cfg env) = Fin 60000)"
  by (auto simp: cfg_def toNumber_def default_BATCH_MS_def default_BATCH_MAX_REQUESTS_def
      default_BACKOFF_BASE_MS_def default_BACKOFF_MAX_MS_def)

text \<open>
  Claim C3 does not hold of the code for the per-attempt timeout of Pipeline B, which
  does not go through \<open>toNumber\<close>: an override that does not parse, such as \<open>abc\<close>,
  gives \<open>Math.max(1, NaN)\<close>, which is NaN and not the default 6000. The same override
  on a field of Pipeline A gives the default.
\<close>

theorem timeout_unparsable_is_NaN:
  "parseInt ''abc'' = NaN \<and>
   timeoutMs (demo_env\<lparr>REQUEST_TIMEOUT_MS := Some ''abc''\<rparr>) = NaN \<and>
   timeoutMs demo_env = Fin 6000 \<and>
   toNumber (Some ''abc'') default_BATCH_MS = Fin 20000"
  by (simp add: timeoutMs_def parseInt_def isWhiteSpace_def isDigit_def toNumber_def
      default_BATCH_MS_def demo_env_def digitsValue_def toDouble_def)

section \<open>The sink client of Pipeline A\<close>

lemma flush_unchanged:
  assumes "batch st = [] \<or> js_lt (Fin now) (backoffUntil st)"
  shows "flush env now st = st"
proof (cases "js_lt (Fin now) (backoffUntil st)")
  case True
  then show ?thesis by (simp add: flush_def)
next
  case False
  with assms have e: "batch st = []" by simp
  have "st\<lparr>batch := batch st\<rparr> = st" by simp
  with e have "st\<lparr>batch := []\<rparr> = st" by simp
  with False e show ?thesis by (simp add: flush_def)
qed

text \<open>
  Claim C7. A \<open>flush\<close> called on an empty batch, or before \<open>backoffUntil\<close>, leaves
  the whole state as it is: no POST is issued, none is awaited, and the backoff and
  the batch are unchanged.
\<close>

theorem flush_noop:
  assumes "batch st = [] \<or> js_lt (Fin now) (backoffUntil st)"
  shows "flush env now st = st \<and>
     posts (flush env now st) = posts st \<and> awaiting (flush env now st) = awaiting st \<and>
     backoffMs (flush env now st) = backoffMs st \<and>
     backoffUntil (flush env now st) = backoffUntil st \<and>
     batch (flush env now st) = batch st"
  using flush_unchanged [OF assms, of env] by simp

theorem flush_noop_witness:
  "flush demo_sink 5 (init :: nat State) = init \<and>
   flush demo_sink 5 ((init :: nat State)\<lparr>batch := [7], backoffUntil := Fin 9\<rparr>)
     = init\<lparr>batch := [7], backoffUntil := Fin 9\<rparr>"
proof -
  have a: "batch (init :: nat State) = [] \<or> js_lt (Fin 5) (backoffUntil (init :: nat State))"
    by (simp add: init_def)
  have b: "batch ((init :: nat State)\<lparr>batch := [7], backoffUntil := Fin 9\<rparr>) = [] \<or>
      js_lt (Fin 5) (backoffUntil ((init :: nat State)\<lparr>batch := [7], backoffUntil := Fin 9\<rparr>))"
    by simp
  from flush_noop [OF a, of demo_sink] flush_noop [OF b, of demo_sink]
  show ?thesis by blast
qed

text \<open>
  Claim C4. Once the POST of a flush has settled, the batch is put back in front of
  the queue exactly when the POST raised or answered 429 or 403, and then the backoff
  advances; on every other status (also 400, 404, 500, 503) the queue stays as it is
  and \<open>backoffMs\<close> and \<open>backoffUntil\<close> are reset to 0.
\<close>

theorem flush_outcome_classification:
  assumes "toSend p \<noteq> []"
  shows
    "(batch (flush_resume p out rnd now st) = toSend p @ batch st
        \<longleftrightarrow> out = Threw \<or> out = Resp 429 \<or> out = Resp 403) \<and>
     (out = Threw \<or> out = Resp 429 \<or> out = Resp 403 \<longrightarrow>
        flush_resume p out rnd now st = backoffAndRequeue p rnd now st \<and>
        backoffMs (flush_resume p out rnd now st) = nextBackoff (conf p) (backoffMs st)) \<and>
     (\<forall>s. out = Resp s \<and> s \<noteq> 429 \<and> s \<noteq> 403 \<longrightarrow>
        batch (flush_resume p out rnd now st) = batch st \<and>
        backoffMs (flush_resume p out rnd now st) = Fin 0 \<and>
        backoffUntil (flush_resume p out rnd now st) = Fin 0)"
  using assms
  by (cases out) (auto simp: flush_resume_def backoffAndRequeue_def Let_def)

theorem flush_outcome_classification_witness:
  "toSend \<lparr>toSend = [1::nat, 2], conf = cfg demo_sink\<rparr> \<noteq> [] \<and>
   batch (flush_resume \<lparr>toSend = [1::nat, 2], conf = cfg demo_sink\<rparr> (Resp 500) 0 10
             (init\<lparr>batch := [3], backoffMs := Fin 2000, backoffUntil := Fin 5\<rparr>)) = [3] \<and>
   backoffMs (flush_resume \<lparr>toSend = [1::nat, 2], conf = cfg demo_sink\<rparr> (Resp 500) 0 10
             (init\<lparr>batch := [3], backoffMs := Fin 2000, backoffUntil := Fin 5\<rparr>)) = Fin 0 \<and>
   backoffUntil (flush_resume \<lparr>toSend = [1::nat, 2], conf = cfg demo_sink\<rparr> (Resp 500) 0 10
             (init\<lparr>batch := [3], backoffMs := Fin 2000, backoffUntil := Fin 5\<rparr>)) = Fin 0 \<and>
   batch (flush_resume \<lparr>toSend = [1::nat, 2], conf = cfg demo_sink\<rparr> (Resp 429) 0 10
             (init\<lparr>batch := [3], backoffMs := Fin 2000, backoffUntil := Fin 5\<rparr>)) = [1, 2, 3]"
proof -
  have n: "toSend \<lparr>toSend = [1::nat, 2], conf = cfg demo_sink\<rparr> \<noteq> []" by simp
  note c = flush_outcome_classification [OF n, where rnd = 0 and now = 10
      and st = "init\<lparr>batch := [3], backoffMs := Fin 2000, backoffUntil := Fin 5\<rparr>"]
  from c [where out = "Resp 500"] c [where out = "Resp 429"] n
  show ?thesis by (simp add: backoffAndRequeue_def Let_def)
qed

section \<open>Backoff\<close>

lemma cfg_demo_sink:
  "cfg demo_sink =
     \<lparr>clarityEndpoint = ''https://sink.example/collect'', batchMs = Fin 20000,
      batchMax = Fin 1, backoffBase = Fin 2000, backoffMax = Fin 60000\<rparr>"
  by (simp add: cfg_def demo_sink_def toNumber_def parseInt_def isWhiteSpace_def isDigit_def
      digitsValue_def toDouble_def trim_def default_BATCH_MS_def
      default_BATCH_MAX_REQUESTS_def default_BACKOFF_BASE_MS_def default_BACKOFF_MAX_MS_def)

lemma cfg_steep_sink:
  "cfg steep_sink =
     \<lparr>clarityEndpoint = ''https://sink.example/collect'', batchMs = Fin 20000,
      batchMax = Fin 1, backoffBase = Fin 100000, backoffMax = Fin 60000\<rparr>"
  by (simp add: cfg_def steep_sink_def demo_sink_def toNumber_def parseInt_def isWhiteSpace_def
      isDigit_def digitsValue_def toDouble_def trim_def default_BATCH_MS_def
      default_BATCH_MAX_REQUESTS_def default_BACKOFF_BASE_MS_def default_BACKOFF_MAX_MS_def)

text \<open>
  Claim C5 does not hold of the code. The branch that doubles the backoff caps it at
  the maximum; the branch that starts a streak sets it to the base with no cap. With
  a base of 100000 and the default maximum of 60000, \<open>backoffMs\<close> is 100000 after the
  first failure, above the maximum, and 60000 after the second, lower than before.
\<close>

theorem backoff_base_above_max:
  "backoffMax (cfg steep_sink) = Fin 60000 \<and>
   map_option backoffMs
     (run [Capture (1::nat) steep_sink 0, PostSettles 0 Threw 0 10] init)
     = Some (Fin 100000) \<and>
   map_option backoffMs
     (run [Capture (1::nat) steep_sink 0, PostSettles 0 Threw 0 10,
           Capture 2 steep_sink 200000, PostSettles 0 Threw 0 200010] init)
     = Some (Fin 60000) \<and>
   \<not> js_le (Fin 100000) (Fin 60000)"
  by (simp add: cfg_steep_sink init_def logAndBatch_def flush_def flush_resume_def
      backoffAndRequeue_def nextBackoff_def remove_nth_def js_ge_def js_le_def Let_def)

section \<open>Requeue\<close>

lemma cfg_quiet_sink:
  "cfg quiet_sink =
     \<lparr>clarityEndpoint = ''https://sink.example/collect'', batchMs = Fin 20000,
      batchMax = Fin 200, backoffBase = Fin 2000, backoffMax = Fin 60000\<rparr>"
  by (simp add: cfg_def quiet_sink_def demo_sink_def toNumber_def trim_def isWhiteSpace_def
      default_BATCH_MS_def default_BATCH_MAX_REQUESTS_def default_BACKOFF_BASE_MS_def
      default_BACKOFF_MAX_MS_def)

lemma flush_cases:
  "(flush env now s = s) \<or>
   (batch s \<noteq> [] \<and> \<not> js_lt (Fin now) (backoffUntil s) \<and>
    flush env now s = s\<lparr>batch := [], awaiting := awaiting s @ [\<lparr>toSend = batch s, conf = cfg env\<rparr>],
                         posts := posts s @ [batch s]\<rparr>)"
proof (cases "batch s = [] \<or> js_lt (Fin now) (backoffUntil s)")
  case True
  then show ?thesis using flush_unchanged [of s now env] by blast
next
  case False
  then show ?thesis by (simp add: flush_def Let_def)
qed

lemma flush_frame:
  "timers (flush env now s) = timers s \<and> flushScheduled (flush env now s) = flushScheduled s"
  using flush_cases [of env now s] by auto

lemma flush_resume_frame:
  "timers (flush_resume p out rnd now s) = timers s \<and>
   flushScheduled (flush_resume p out rnd now s) = flushScheduled s \<and>
   awaiting (flush_resume p out rnd now s) = awaiting s"
  by (cases out) (simp_all add: flush_resume_def backoffAndRequeue_def Let_def)

lemma flush_awaiting:
  "(awaiting (flush env now s) = awaiting s \<and> batch (flush env now s) = batch s) \<or>
   (\<exists>p. awaiting (flush env now s) = awaiting s @ [p])"
  using flush_cases [of env now s] by auto

lemma step_no_settle:
  assumes "step e s = Some s1" and "\<not> isSettle e"
  shows "(awaiting s1 = awaiting s \<and> batch s1 = batch s @ captured [e]) \<or>
         (\<exists>p. awaiting s1 = awaiting s @ [p])"
proof (cases e)
  case (Capture ev env now)
  with assms(1) have s1: "s1 = logAndBatch ev env now s" by simp
  show ?thesis
  proof (cases "js_ge (Fin (of_nat (length (batch s @ [ev])))) (batchMax (cfg env))")
    case True
    then have "s1 = flush env now (s\<lparr>batch := batch s @ [ev]\<rparr>)"
      by (simp add: s1 logAndBatch_def Let_def)
    with flush_awaiting [of env now "s\<lparr>batch := batch s @ [ev]\<rparr>"] Capture
    show ?thesis by simp
  next
    case False
    then show ?thesis by (simp add: s1 logAndBatch_def Let_def Capture)
  qed
next
  case (TimerFires i now)
  with assms(1) have i: "i < length (timers s)"
    and s1: "s1 = scheduleFlush_resume (timers s ! i) now (s\<lparr>timers := remove_nth i (timers s)\<rparr>)"
    by (simp_all split: if_splits)
  let ?s = "s\<lparr>timers := remove_nth i (timers s), flushScheduled := False\<rparr>"
  show ?thesis
  proof (cases "batch s = []")
    case True
    then show ?thesis by (simp add: s1 scheduleFlush_resume_def Let_def TimerFires)
  next
    case False
    then have "s1 = flush (timers s ! i) now ?s"
      by (simp add: s1 scheduleFlush_resume_def Let_def)
    with flush_awaiting [of "timers s ! i" now ?s] TimerFires
    show ?thesis by simp
  qed
next
  case (PostSettles i out rnd now)
  with assms(2) show ?thesis by simp
qed

lemma run_no_settle:
  assumes "run evs s = Some s'" and "\<forall>e \<in> set evs. \<not> isSettle e"
  shows "length (awaiting s) \<le> length (awaiting s') \<and>
         (length (awaiting s') = length (awaiting s) \<longrightarrow>
            awaiting s' = awaiting s \<and> batch s' = batch s @ captured evs)"
  using assms
proof (induction evs arbitrary: s)
  case Nil
  then show ?case by simp
next
  case (Cons e evs)
  from Cons.prems(1) obtain s1 where s1: "step e s = Some s1" and r: "run evs s1 = Some s'"
    by (auto split: option.splits)
  from Cons.prems(2) have ne: "\<not> isSettle e" and rest: "\<forall>e \<in> set evs. \<not> isSettle e"
    by simp_all
  note ih = Cons.IH [OF r rest]
  have cap: "captured (e # evs) = captured [e] @ captured evs"
    by (cases e) simp_all
  from step_no_settle [OF s1 ne] show ?case
  proof
    assume "awaiting s1 = awaiting s \<and> batch s1 = batch s @ captured [e]"
    with ih cap show ?thesis by simp
  next
    assume "\<exists>p. awaiting s1 = awaiting s @ [p]"
    then have "length (awaiting s1) = Suc (length (awaiting s))" by auto
    with ih show ?thesis by simp
  qed
qed

lemma failure_requeues:
  "isFailure out \<Longrightarrow> batch (flush_resume p out rnd now st) = toSend p @ batch st"
  by (auto simp: isFailure_def flush_resume_def backoffAndRequeue_def Let_def)

text \<open>
  Claim C6 as stated fails when a second flush starts during the attempt. With a batch
  size of 1, the first capture starts a flush with outbox \<open>[1]\<close>; the second capture,
  during that attempt, pushes 2 and starts a flush of its own, which takes 2 away; when
  the first POST then fails, the queue is \<open>[1]\<close>, not \<open>[1, 2]\<close>.
\<close>

theorem second_flush_takes_appended_events:
  "map_option (\<lambda>s. map toSend (awaiting s)) (run [Capture (1::nat) demo_sink 0] init)
     = Some [[1]] \<and>
   map_option batch
     (run [Capture (1::nat) demo_sink 0, Capture 2 demo_sink 1, PostSettles 0 Threw 0 2] init)
     = Some [1]"
  by (simp add: cfg_demo_sink init_def logAndBatch_def flush_def flush_resume_def
      backoffAndRequeue_def nextBackoff_def remove_nth_def js_ge_def Let_def)

text \<open>
  Claim C6, amended. On a failed attempt the queue after the requeue is the outbox, in
  its order, followed by the queue as it stands at that moment. When no POST settles
  and no other flush starts during the attempt, the queue at that moment is exactly
  what was captured during the attempt, in order: the queue after the requeue is the
  outbox followed by these, nothing lost, doubled or moved.
\<close>

theorem requeue_order:
  assumes "isFailure out"
  shows "batch (flush_resume p out rnd now (st :: 'e State)) = toSend p @ batch st \<and>
     (\<forall>env t (st0 :: 'e State) evs st2.
        batch st0 \<noteq> [] \<and> \<not> js_lt (Fin t) (backoffUntil st0) \<and>
        run evs (flush env t st0) = Some st2 \<and> (\<forall>e \<in> set evs. \<not> isSettle e) \<and>
        length (awaiting st2) = Suc (length (awaiting st0))
        \<longrightarrow> (\<exists>st3. step (PostSettles (length (awaiting st0)) out rnd now) st2 = Some st3 \<and>
                   batch st3 = batch st0 @ captured evs))"
proof (intro conjI allI impI)
  show "batch (flush_resume p out rnd now st) = toSend p @ batch st"
    using assms by (rule failure_requeues)
next
  fix env t and st0 :: "'e State" and evs st2
  assume a: "batch st0 \<noteq> [] \<and> \<not> js_lt (Fin t) (backoffUntil st0) \<and>
        run evs (flush env t st0) = Some st2 \<and> (\<forall>e \<in> set evs. \<not> isSettle e) \<and>
        length (awaiting st2) = Suc (length (awaiting st0))"
  let ?p = "\<lparr>toSend = batch st0, conf = cfg env\<rparr>"
  let ?st1 = "flush env t st0"
  from a have f: "?st1 = st0\<lparr>batch := [], awaiting := awaiting st0 @ [?p],
                         posts := posts st0 @ [batch st0]\<rparr>"
    by (simp add: flush_def Let_def)
  then have l1: "length (awaiting ?st1) = Suc (length (awaiting st0))" by simp
  from a have r: "run evs ?st1 = Some st2" and ns: "\<forall>e \<in> set evs. \<not> isSettle e" by simp_all
  from run_no_settle [OF r ns] a l1
  have aw: "awaiting st2 = awaiting ?st1" and b: "batch st2 = batch ?st1 @ captured evs"
    by simp_all
  from aw f have aw2: "awaiting st2 = awaiting st0 @ [?p]" by simp
  from b f have b2: "batch st2 = captured evs" by simp
  let ?i = "length (awaiting st0)"
  let ?st3 = "flush_resume ?p out rnd now (st2\<lparr>awaiting := remove_nth ?i (awaiting st2)\<rparr>)"
  have "step (PostSettles ?i out rnd now) st2 = Some ?st3"
    by (simp add: aw2)
  moreover have "batch ?st3 = batch st0 @ captured evs"
    using failure_requeues [OF assms, of ?p rnd now "st2\<lparr>awaiting := remove_nth ?i (awaiting st2)\<rparr>"]
    by (simp add: b2)
  ultimately show "\<exists>st3. step (PostSettles ?i out rnd now) st2 = Some st3 \<and>
                   batch st3 = batch st0 @ captured evs" by blast
qed

theorem requeue_order_witness:
  "\<exists>st2 st3.
     run [Capture 3 quiet_sink 1, Capture 4 quiet_sink 2]
       (flush quiet_sink 0 (init\<lparr>batch := [1::nat, 2]\<rparr>)) = Some st2 \<and>
     step (PostSettles 0 Threw 0 9) st2 = Some st3 \<and>
     batch st3 = [1, 2, 3, 4]"
proof -
  let ?st0 = "init\<lparr>batch := [1::nat, 2]\<rparr>"
  let ?evs = "[Capture 3 quiet_sink 1, Capture (4::nat) quiet_sink 2]"
  have f: "isFailure Threw" by (simp add: isFailure_def)
  have "\<exists>st2. run ?evs (flush quiet_sink 0 ?st0) = Some st2 \<and>
          length (awaiting st2) = Suc (length (awaiting ?st0))"
    by (simp add: cfg_quiet_sink init_def logAndBatch_def flush_def js_ge_def Let_def)
  then obtain st2 where r: "run ?evs (flush quiet_sink 0 ?st0) = Some st2"
    and l: "length (awaiting st2) = Suc (length (awaiting ?st0))" by blast
  have h: "batch ?st0 \<noteq> [] \<and> \<not> js_lt (Fin 0) (backoffUntil ?st0) \<and>
        run ?evs (flush quiet_sink 0 ?st0) = Some st2 \<and> (\<forall>e \<in> set ?evs. \<not> isSettle e) \<and>
        length (awaiting st2) = Suc (length (awaiting ?st0))"
    using r l by (simp add: init_def)
  from requeue_order [OF f, where p = "\<lparr>toSend = [], conf = cfg quiet_sink\<rparr>"
      and rnd = 0 and now = 9 and st = ?st0] h
  obtain st3 where "step (PostSettles (length (awaiting ?st0)) Threw 0 9) st2 = Some st3"
    and "batch st3 = batch ?st0 @ captured ?evs" by blast
  then have "step (PostSettles 0 Threw 0 9) st2 = Some st3" and "batch st3 = [1, 2, 3, 4]"
    by (simp_all add: init_def)
  with r show ?thesis by blast
qed

section \<open>The flush timer\<close>

lemma step_single_timer:
  assumes "length (timers s) \<le> 1 \<and> flushScheduled s = (timers s \<noteq> [])"
    and "step e s = Some s'"
  shows "length (timers s') \<le> 1 \<and> flushScheduled s' = (timers s' \<noteq> [])"
proof (cases e)
  case (Capture ev env now)
  with assms(2) have s': "s' = logAndBatch ev env now s" by simp
  show ?thesis
  proof (cases "js_ge (Fin (of_nat (length (batch s @ [ev])))) (batchMax (cfg env))")
    case True
    then have "s' = flush env now (s\<lparr>batch := batch s @ [ev]\<rparr>)"
      by (simp add: s' logAndBatch_def Let_def)
    with assms(1) flush_frame [of env now "s\<lparr>batch := batch s @ [ev]\<rparr>"]
    show ?thesis by simp
  next
    case False
    with assms(1) show ?thesis
      by (cases "flushScheduled s") (auto simp: s' logAndBatch_def Let_def)
  qed
next
  case (TimerFires i now)
  with assms(2) have i: "i < length (timers s)"
    and s': "s' = scheduleFlush_resume (timers s ! i) now (s\<lparr>timers := remove_nth i (timers s)\<rparr>)"
    by (simp_all split: if_splits)
  from i assms(1) have "length (timers s) = 1" by simp
  with i have e: "remove_nth i (timers s) = []" by (simp add: remove_nth_def)
  let ?s = "s\<lparr>timers := remove_nth i (timers s), flushScheduled := False\<rparr>"
  from flush_frame [of "timers s ! i" now ?s] e show ?thesis
    by (simp add: s' scheduleFlush_resume_def Let_def)
next
  case (PostSettles i out rnd now)
  with assms(2) have "s' = flush_resume (awaiting s ! i) out rnd now
                      (s\<lparr>awaiting := remove_nth i (awaiting s)\<rparr>)"
    by (simp split: if_splits)
  with assms(1)
    flush_resume_frame [of "awaiting s ! i" out rnd now "s\<lparr>awaiting := remove_nth i (awaiting s)\<rparr>"]
  show ?thesis by simp
qed

lemma run_single_timer:
  assumes "run evs s = Some s'"
    and "length (timers s) \<le> 1 \<and> flushScheduled s = (timers s \<noteq> [])"
  shows "length (timers s') \<le> 1 \<and> flushScheduled s' = (timers s' \<noteq> [])"
  using assms
proof (induction evs arbitrary: s)
  case Nil
  then show ?case by simp
next
  case (Cons e evs)
  from Cons.prems(1) obtain s1 where s1: "step e s = Some s1" and r: "run evs s1 = Some s'"
    by (auto split: option.splits)
  from step_single_timer [OF Cons.prems(2) s1] Cons.IH [OF r] show ?case by blast
qed

lemma logAndBatch_arms:
  "timers (logAndBatch ev env now s) = timers s \<or>
   (\<not> flushScheduled s \<and> flushScheduled (logAndBatch ev env now s) \<and>
    timers (logAndBatch ev env now s) = timers s @ [env])"
proof (cases "js_ge (Fin (of_nat (length (batch s @ [ev])))) (batchMax (cfg env))")
  case True
  then have "logAndBatch ev env now s = flush env now (s\<lparr>batch := batch s @ [ev]\<rparr>)"
    by (simp add: logAndBatch_def Let_def)
  with flush_frame [of env now "s\<lparr>batch := batch s @ [ev]\<rparr>"] show ?thesis by simp
next
  case False
  then show ?thesis by (simp add: logAndBatch_def Let_def)
qed

lemma scheduleFlush_resets:
  "\<not> flushScheduled (scheduleFlush_resume env now s) \<and>
   scheduleFlush_resume env now s =
     (if batch s = [] then s\<lparr>flushScheduled := False\<rparr>
      else flush env now (s\<lparr>flushScheduled := False\<rparr>))"
  using flush_frame [of env now "s\<lparr>flushScheduled := False\<rparr>"]
  by (simp add: scheduleFlush_resume_def Let_def)

text \<open>
  Claim C9. In every state the isolate reaches from its initial one, through any
  history of captures, timers firing and POSTs settling, at most one timer is
  outstanding, and \<open>flushScheduled\<close> is true exactly when one is. A capture arms a timer
  only when \<open>flushScheduled\<close> is false, and sets it to true as it does; a timer that
  fires sets it to false, and only then is the batch looked at and flushed.
\<close>

theorem single_timer:
  assumes "run evs init = Some st"
  shows "length (timers st) \<le> 1 \<and> flushScheduled st = (timers st \<noteq> []) \<and>
     (\<forall>ev env now.
        timers (logAndBatch ev env now st) = timers st \<or>
        (\<not> flushScheduled st \<and> flushScheduled (logAndBatch ev env now st) \<and>
         timers (logAndBatch ev env now st) = timers st @ [env])) \<and>
     (\<forall>env now.
        \<not> flushScheduled (scheduleFlush_resume env now st) \<and>
        scheduleFlush_resume env now st =
          (if batch st = [] then st\<lparr>flushScheduled := False\<rparr>
           else flush env now (st\<lparr>flushScheduled := False\<rparr>)))"
proof -
  have "length (timers (init :: 'a State)) \<le> 1 \<and>
        flushScheduled (init :: 'a State) = (timers (init :: 'a State) \<noteq> [])"
    by (simp add: init_def)
  from run_single_timer [OF assms this] logAndBatch_arms [of _ _ _ st]
    scheduleFlush_resets [of _ _ st]
  show ?thesis by blast
qed

theorem single_timer_witness:
  "\<exists>st. run [Capture (1::nat) quiet_sink 0, Capture 2 quiet_sink 1, TimerFires 0 20000,
             Capture 3 quiet_sink 20001] init = Some st \<and>
        length (timers st) \<le> 1 \<and> flushScheduled st = (timers st \<noteq> []) \<and>
        timers st = [quiet_sink]"
proof -
  let ?evs = "[Capture (1::nat) quiet_sink 0, Capture 2 quiet_sink 1, TimerFires 0 20000,
             Capture 3 quiet_sink 20001]"
  have "\<exists>st. run ?evs init = Some st \<and> timers st = [quiet_sink]"
    by (simp add: cfg_quiet_sink init_def logAndBatch_def flush_def scheduleFlush_resume_def
        remove_nth_def js_ge_def Let_def)
  then obtain st where r: "run ?evs init = Some st" and t: "timers st = [quiet_sink]"
    by blast
  from single_timer [OF r]
  have "length (timers st) \<le> 1" and "flushScheduled st = (timers st \<noteq> [])" by blast+
  with r t show ?thesis by blast
qed

section \<open>Redaction and the forced headers of Pipeline B\<close>

lemma newSet_acc:
  "set (foldl (\<lambda>acc x. if x \<in> set acc then acc else acc @ [x]) acc xs) = set acc \<union> set xs"
  by (induction xs arbitrary: acc) auto

lemma set_newSet: "set (newSet xs) = set xs"
  by (simp add: newSet_def newSet_acc)

lemma set_redactSet:
  "set (redactSet env) =
     (\<lambda>e. toLowerCase (trim e)) `
        set (split CHR '','' (case REDACT_HEADERS env of None \<Rightarrow> ''authorization,cookie'' | Some s \<Rightarrow> s))
     - {[]}"
  by (auto simp: redactSet_def set_newSet)

lemma byteLower_idem: "byteLower (byteLower n) = byteLower n"
  by (simp add: byteLower_def Let_def)

lemma thenDo_Inr: "thenDo m g = Inr y \<Longrightarrow> \<exists>x. m = Inr x \<and> g x = Inr y"
  by (cases m) (simp_all add: thenDo_def)

lemma h_set_Inr: "h_set h name v = Inr h' \<Longrightarrow> h' = h(byteLower name \<mapsto> normalizeValue v)"
  by (simp add: h_set_def Let_def split: if_splits)

lemma h_get_Inr: "h_get h name = Inr v \<Longrightarrow> v = h (byteLower name)"
  by (simp add: h_get_def split: if_splits)

text \<open>What the redaction loop leaves under each name, when it goes through.\<close>

lemma redactHeaders_lookup:
  "redactHeaders rs H = Inr H' \<Longrightarrow>
     H' k = (if k \<in> byteLower ` set rs \<and> H k \<noteq> None then Some ''__REDACTED__'' else H k)"
proof (induction rs arbitrary: H)
  case Nil
  then show ?case by simp
next
  case (Cons r rs)
  from Cons.prems have r: "isHeaderName r"
    by (auto simp: h_has_def split: if_splits)
  show ?case
  proof (cases "H (byteLower r) \<noteq> None")
    case True
    let ?H = "H(byteLower r \<mapsto> ''__REDACTED__'')"
    from True r Cons.prems have "redactHeaders rs ?H = Inr H'"
      by (simp add: h_has_def h_set_def marker_is_value)
    from Cons.IH [OF this]
    have "H' k = (if k \<in> byteLower ` set rs \<and> ?H k \<noteq> None then Some ''__REDACTED__'' else ?H k)" .
    with True show ?thesis by auto
  next
    case False
    with r Cons.prems have "redactHeaders rs H = Inr H'"
      by (simp add: h_has_def)
    from Cons.IH [OF this]
    have "H' k = (if k \<in> byteLower ` set rs \<and> H k \<noteq> None then Some ''__REDACTED__'' else H k)" .
    with False show ?thesis by auto
  qed
qed

lemma forwardHeaders_lookup:
  assumes "forwardHeaders env H = Inr fh"
  shows "fh ''x-tenant-key'' = Some (normalizeValue (TENANT_KEY env)) \<and>
         fh ''user-agent'' = Some UA \<and>
         (\<forall>k. k \<in> byteLower ` set (redactSet env) \<and> H k \<noteq> None \<and>
              k \<noteq> ''x-tenant-key'' \<and> k \<noteq> ''user-agent''
            \<longrightarrow> fh k = Some ''__REDACTED__'')"
proof -
  let ?v = "normalizeValue (TENANT_KEY env)"
  from thenDo_Inr [OF assms [unfolded forwardHeaders_def]]
  obtain fh0 where r: "redactHeaders (redactSet env) H = Inr fh0"
    and s1: "thenDo (h_set fh0 ''x-tenant-key'' (TENANT_KEY env)) (\<lambda>fh.
             thenDo (h_set fh ''user-agent'' UA) (\<lambda>fh.
             thenDo (h_get fh ''content-type'') (\<lambda>ct.
               if ct = None \<or> ct = Some []
               then h_set fh ''content-type'' ''application/json''
               else Inr fh))) = Inr fh" by blast
  from thenDo_Inr [OF s1]
  obtain fh1 where t1: "h_set fh0 ''x-tenant-key'' (TENANT_KEY env) = Inr fh1"
    and s2: "thenDo (h_set fh1 ''user-agent'' UA) (\<lambda>fh.
             thenDo (h_get fh ''content-type'') (\<lambda>ct.
               if ct = None \<or> ct = Some []
               then h_set fh ''content-type'' ''application/json''
               else Inr fh)) = Inr fh" by blast
  from thenDo_Inr [OF s2]
  obtain fh2 where t2: "h_set fh1 ''user-agent'' UA = Inr fh2"
    and s3: "thenDo (h_get fh2 ''content-type'') (\<lambda>ct.
               if ct = None \<or> ct = Some []
               then h_set fh2 ''content-type'' ''application/json''
               else Inr fh2) = Inr fh" by blast
  from thenDo_Inr [OF s3]
  obtain ct where t3: "h_get fh2 ''content-type'' = Inr ct"
    and s4: "(if ct = None \<or> ct = Some []
               then h_set fh2 ''content-type'' ''application/json''
               else Inr fh2) = Inr fh" by blast
  from h_set_Inr [OF t1] have fh1: "fh1 = fh0(''x-tenant-key'' \<mapsto> ?v)"
    by (simp add: byteLower_consts)
  from h_set_Inr [OF t2] have fh2: "fh2 = fh1(''user-agent'' \<mapsto> UA)"
    by (simp add: byteLower_consts fixed_values)
  from h_get_Inr [OF t3] have ct: "ct = fh2 ''content-type''"
    by (simp add: byteLower_consts)
  have fh: "fh = fh2 \<or> (fh = fh2(''content-type'' \<mapsto> ''application/json'') \<and>
      (fh2 ''content-type'' = None \<or> fh2 ''content-type'' = Some []))"
  proof (cases "ct = None \<or> ct = Some []")
    case True
    with s4 have "h_set fh2 ''content-type'' ''application/json'' = Inr fh" by simp
    from h_set_Inr [OF this] True ct show ?thesis
      by (simp add: byteLower_consts fixed_values)
  next
    case False
    with s4 show ?thesis by simp
  qed
  have a: "fh ''x-tenant-key'' = Some ?v" "fh ''user-agent'' = Some UA"
    using fh by (auto simp: fh1 fh2)
  have "fh k = Some ''__REDACTED__''"
    if k: "k \<in> byteLower ` set (redactSet env) \<and> H k \<noteq> None \<and>
              k \<noteq> ''x-tenant-key'' \<and> k \<noteq> ''user-agent''" for k
  proof -
    from redactHeaders_lookup [OF r, of k] k have "fh0 k = Some ''__REDACTED__''" by simp
    with k have "fh2 k = Some ''__REDACTED__''" by (simp add: fh1 fh2)
    with fh show ?thesis by (cases "k = ''content-type''") auto
  qed
  with a show ?thesis by blast
qed

lemma forward_headers:
  assumes "forward hmac up env request = Inr f" and "c \<in> set (upstream f)"
  shows "\<exists>fh. forwardHeaders env (headers request) = Inr fh \<and>
           (signEnabled env \<longrightarrow> (\<forall>k. k \<noteq> ''x-signature'' \<longrightarrow> u_headers c k = fh k)) \<and>
           (\<not> signEnabled env \<longrightarrow> u_headers c = fh)"
proof -
  from thenDo_Inr [OF assms(1) [unfolded forward_def]]
  obtain fh where fh: "forwardHeaders env (headers request) = Inr fh"
    and s1: "thenDo (if signEnabled env
             then thenDo (arrayBuffer request) (\<lambda>arr.
                  thenDo (hmacSha256Hex hmac (TENANT_KEY env) arr) (\<lambda>signature.
                  thenDo (h_set fh ''x-signature'' signature) (\<lambda>fh'.
                    Inr (fh', Some arr))))
             else Inr (fh, body request)) (\<lambda>(fh, bodyForSend).
       let call = \<lparr>url = INGEST_URL env, u_headers = fh, u_body = bodyForSend,
                   u_timeout = timeoutMs env\<rparr>;
           (r, calls) = retryLoop up 0
       in Inr \<lparr>response = r, upstream = map (\<lambda>_. call) calls\<rparr>) = Inr f" by blast
  from thenDo_Inr [OF s1]
  obtain x where px: "(if signEnabled env
             then thenDo (arrayBuffer request) (\<lambda>arr.
                  thenDo (hmacSha256Hex hmac (TENANT_KEY env) arr) (\<lambda>signature.
                  thenDo (h_set fh ''x-signature'' signature) (\<lambda>fh'.
                    Inr (fh', Some arr))))
             else Inr (fh, body request)) = Inr x \<and>
       (case x of (fh, bodyForSend) \<Rightarrow>
       let call = \<lparr>url = INGEST_URL env, u_headers = fh, u_body = bodyForSend,
                   u_timeout = timeoutMs env\<rparr>;
           (r, calls) = retryLoop up 0
       in Inr \<lparr>response = r, upstream = map (\<lambda>_. call) calls\<rparr>)
         = (Inr f :: js_error + Forwarded)" ..
  note p = conjunct1 [OF px] and f = conjunct2 [OF px]
  from f assms(2) have c: "u_headers c = fst x"
    by (auto simp: Let_def split: prod.splits)
  have "signEnabled env \<Longrightarrow> k \<noteq> ''x-signature'' \<Longrightarrow> fst x k = fh k" for k
  proof -
    assume sg: "signEnabled env" and k: "k \<noteq> ''x-signature''"
    from p sg have "thenDo (arrayBuffer request) (\<lambda>arr.
                  thenDo (hmacSha256Hex hmac (TENANT_KEY env) arr) (\<lambda>signature.
                  thenDo (h_set fh ''x-signature'' signature) (\<lambda>fh'.
                    Inr (fh', Some arr)))) = Inr x" by simp
    from thenDo_Inr [OF this] obtain arr where
      "thenDo (hmacSha256Hex hmac (TENANT_KEY env) arr) (\<lambda>signature.
                  thenDo (h_set fh ''x-signature'' signature) (\<lambda>fh'.
                    Inr (fh', Some arr))) = Inr x" by blast
    from thenDo_Inr [OF this] obtain sg' where
      "thenDo (h_set fh ''x-signature'' sg') (\<lambda>fh'. Inr (fh', Some arr)) = Inr x"
      by blast
    from thenDo_Inr [OF this] obtain fh'' where
      "h_set fh ''x-signature'' sg' = Inr fh''" and "x = (fh'', Some arr)"
      by auto
    then have "h_set fh ''x-signature'' sg' = Inr (fst x)" by simp
    from h_set_Inr [OF this] k show "fst x k = fh k" by (simp add: byteLower_consts)
  qed
  moreover from p have "\<not> signEnabled env \<Longrightarrow> fst x = fh" by auto
  ultimately show ?thesis using fh c by auto
qed

text \<open>The headers of every request the handler sends upstream.\<close>

lemma forwarded_headers:
  assumes "forwarder_fetch hmac rnd up env request = Inr f" and "c \<in> set (upstream f)"
  shows "u_headers c ''x-tenant-key'' = Some (normalizeValue (TENANT_KEY env)) \<and>
         u_headers c ''user-agent'' = Some UA \<and>
         (\<forall>k. k \<in> set (redactSet env) \<and> byteLower k = k \<and> headers request k \<noteq> None \<and>
              k \<noteq> ''x-tenant-key'' \<and> k \<noteq> ''user-agent'' \<and>
              (signEnabled env \<longrightarrow> k \<noteq> ''x-signature'')
            \<longrightarrow> u_headers c k = Some ''__REDACTED__'')"
proof -
  from assms have "upstream f \<noteq> []" by auto
  with assms(1) have fw: "forward hmac up env request = Inr f"
    by (auto simp: forwarder_fetch_def split: if_splits)
  from forward_headers [OF fw assms(2)]
  obtain fh where fh: "forwardHeaders env (headers request) = Inr fh"
    and same: "signEnabled env \<Longrightarrow> k \<noteq> ''x-signature'' \<Longrightarrow> u_headers c k = fh k"
    and same': "\<not> signEnabled env \<Longrightarrow> u_headers c k = fh k" for k
    by auto
  note l = forwardHeaders_lookup [OF fh]
  have a: "u_headers c ''x-tenant-key'' = Some (normalizeValue (TENANT_KEY env))"
    "u_headers c ''user-agent'' = Some UA"
    using l same [of "''x-tenant-key''"] same' [of "''x-tenant-key''"]
      same [of "''user-agent''"] same' [of "''user-agent''"]
    by (cases "signEnabled env"; simp)+
  have "u_headers c k = Some ''__REDACTED__''"
    if k: "k \<in> set (redactSet env) \<and> byteLower k = k \<and> headers request k \<noteq> None \<and>
              k \<noteq> ''x-tenant-key'' \<and> k \<noteq> ''user-agent'' \<and>
              (signEnabled env \<longrightarrow> k \<noteq> ''x-signature'')" for k
  proof -
    from k have "byteLower k \<in> byteLower ` set (redactSet env)" by (intro imageI) simp
    with k have "k \<in> byteLower ` set (redactSet env)" by simp
    with l k have "fh k = Some ''__REDACTED__''" by blast
    with k same [of k] same' [of k] show ?thesis by (cases "signEnabled env") auto
  qed
  with a show ?thesis by blast
qed

lemma redactSet_user_agent:
  "redactSet (demo_env\<lparr>REDACT_HEADERS := Some ''user-agent''\<rparr>) = [''user-agent'']"
  by (simp add: redactSet_def demo_env_def newSet_def toLowerCase_def trim_def lowerChar_def
      isWhiteSpace_def)

text \<open>With a single upstream call, what the handler sent under a header name.\<close>

lemma single_call:
  assumes "forward hmac (\<lambda>k. Resp 200) env request = Inr f"
  shows "\<exists>c. upstream f = [c]"
proof -
  from forward_result [OF assms] retryLoop_200 have "length (upstream f) = 1" by simp
  then show ?thesis by (cases "upstream f") auto
qed

text \<open>
  Claim C8 as stated fails in three places. A redact set that names a forced header:
  with \<open>REDACT_HEADERS = user-agent\<close> and a request that carries \<open>user-agent: curl/8\<close>,
  the forwarded \<open>user-agent\<close> is the forwarder's own, not the redaction marker. A tenant
  key with white space around it: \<open>Headers.set\<close> strips it, so for the key \<open>" t1 "\<close> the
  forwarded header is \<open>"t1"\<close>. And a caller that sends the marker itself as the value of
  a redacted header gets that same value forwarded.
\<close>

theorem forced_header_overrides_redaction:
  "redactSet (demo_env\<lparr>REDACT_HEADERS := Some ''user-agent''\<rparr>) = [''user-agent''] \<and>
   h_get (headers demo_request) ''user-agent'' = Inr (Some ''curl/8'') \<and>
   map_sum id (\<lambda>f. map (\<lambda>c. h_get (u_headers c) ''user-agent'') (upstream f))
     (forwarder_fetch (\<lambda>k b. []) 0 (\<lambda>k. Resp 200)
        (demo_env\<lparr>REDACT_HEADERS := Some ''user-agent''\<rparr>) demo_request)
     = Inr [Inr (Some ''cf-forwarder/1.2'')] \<and>
   TENANT_KEY (demo_env\<lparr>TENANT_KEY := '' t1 ''\<rparr>) = '' t1 '' \<and>
   map_sum id (\<lambda>f. map (\<lambda>c. h_get (u_headers c) ''x-tenant-key'') (upstream f))
     (forwarder_fetch (\<lambda>k b. []) 0 (\<lambda>k. Resp 200)
        (demo_env\<lparr>TENANT_KEY := '' t1 ''\<rparr>) demo_request)
     = Inr [Inr (Some ''t1'')] \<and>
   map_sum id (\<lambda>f. map (\<lambda>c. h_get (u_headers c) ''cookie'') (upstream f))
     (forwarder_fetch (\<lambda>k b. []) 0 (\<lambda>k. Resp 200)
        demo_env (demo_request\<lparr>headers := [''cookie'' \<mapsto> ''__REDACTED__'']\<rparr>))
     = Inr [h_get (headers (demo_request\<lparr>headers := [''cookie'' \<mapsto> ''__REDACTED__'']\<rparr>))
              ''cookie'']"
proof -
  let ?h = "\<lambda>(k::string) (b::string). ([]::string)"
  let ?up = "\<lambda>k::nat. Resp 200"
  let ?e1 = "demo_env\<lparr>REDACT_HEADERS := Some ''user-agent''\<rparr>"
  let ?e2 = "demo_env\<lparr>TENANT_KEY := '' t1 ''\<rparr>"
  let ?r3 = "demo_request\<lparr>headers := [''cookie'' \<mapsto> ''__REDACTED__'']\<rparr>"
  have cookie: "isHeaderName ''cookie''" "byteLower ''cookie'' = ''cookie''"
    by (simp_all add: isHeaderName_def isTchar_def byteLower_def)
  have a: "h_get (headers demo_request) ''user-agent'' = Inr (Some ''curl/8'')"
    by (simp add: h_get_def fixed_names byteLower_consts demo_request_def)
  have gate: "\<not> js_gt (Fin 0) (sampleRate ?e1)" "\<not> js_gt (Fin 0) (sampleRate ?e2)"
    "\<not> js_gt (Fin 0) (sampleRate demo_env)"
    by (simp_all add: sampleRate_def demo_env_def Number_examples clamp_def js_gt_def)
  have p3: "pathname ?r3 \<noteq> ''/__health''" by (simp add: demo_request_def)
  \<comment> \<open>the redact set names user-agent\<close>
  have ok1a: "list_all isHeaderName (redactSet ?e1)"
    by (simp add: redactSet_user_agent fixed_names)
  have ok1b: "isHeaderValue (normalizeValue (TENANT_KEY ?e1))"
    by (simp add: demo_env_def normalizeValue_def isHttpWhitespace_def isHeaderValue_def)
  have ok1c: "\<not> signEnabled ?e1"
    by (simp add: signEnabled_def demo_env_def toLowerCase_def lowerChar_def)
  note ok1 = ok1a ok1b ok1c
  from forward_ok [OF ok1] obtain f1 where f1: "forward ?h ?up ?e1 demo_request = Inr f1"
    by blast
  with admitted_goes_on [OF pathname_demo_request gate(1)]
  have g1: "forwarder_fetch ?h 0 ?up ?e1 demo_request = Inr f1" by simp
  from single_call [OF f1] obtain c1 where c1: "upstream f1 = [c1]" by blast
  then have "c1 \<in> set (upstream f1)" by simp
  from forwarded_headers [OF g1 this] have "u_headers c1 ''user-agent'' = Some UA"
    by (elim conjE)
  then have b: "map_sum id (\<lambda>f. map (\<lambda>c. h_get (u_headers c) ''user-agent'') (upstream f))
     (forwarder_fetch ?h 0 ?up ?e1 demo_request) = Inr [Inr (Some ''cf-forwarder/1.2'')]"
    by (simp add: g1 c1 h_get_def fixed_names byteLower_consts UA_def)
  \<comment> \<open>the tenant key has white space around it\<close>
  have n2: "normalizeValue '' t1 '' = ''t1''"
    by (simp add: normalizeValue_def isHttpWhitespace_def)
  have "redactSet ?e2 = redactSet demo_env" by (simp add: redactSet_def)
  then have ok2a: "list_all isHeaderName (redactSet ?e2)"
    by (simp add: redactSet_demo_env isHeaderName_def isTchar_def)
  have ok2b: "isHeaderValue (normalizeValue (TENANT_KEY ?e2))"
    by (simp add: n2 isHeaderValue_def)
  have ok2c: "\<not> signEnabled ?e2"
    by (simp add: signEnabled_def demo_env_def toLowerCase_def lowerChar_def)
  note ok2 = ok2a ok2b ok2c
  from forward_ok [OF ok2] obtain f2 where f2: "forward ?h ?up ?e2 demo_request = Inr f2"
    by blast
  with admitted_goes_on [OF pathname_demo_request gate(2)]
  have g2: "forwarder_fetch ?h 0 ?up ?e2 demo_request = Inr f2" by simp
  from single_call [OF f2] obtain c2 where c2: "upstream f2 = [c2]" by blast
  then have "c2 \<in> set (upstream f2)" by simp
  from forwarded_headers [OF g2 this]
  have "u_headers c2 ''x-tenant-key'' = Some (normalizeValue (TENANT_KEY ?e2))"
    by (elim conjE)
  then have c: "map_sum id (\<lambda>f. map (\<lambda>c. h_get (u_headers c) ''x-tenant-key'') (upstream f))
     (forwarder_fetch ?h 0 ?up ?e2 demo_request) = Inr [Inr (Some ''t1'')]"
    by (simp add: g2 c2 h_get_def fixed_names byteLower_consts n2)
  \<comment> \<open>the caller sends the marker\<close>
  from forward_ok [OF demo_ok] obtain f3 where f3: "forward ?h ?up demo_env ?r3 = Inr f3"
    by blast
  with admitted_goes_on [OF p3 gate(3)]
  have g3: "forwarder_fetch ?h 0 ?up demo_env ?r3 = Inr f3" by simp
  from single_call [OF f3] obtain c3 where c3: "upstream f3 = [c3]" by blast
  then have m3: "c3 \<in> set (upstream f3)" by simp
  have hyp3: "''cookie'' \<in> set (redactSet demo_env) \<and> byteLower ''cookie'' = ''cookie'' \<and>
      headers ?r3 ''cookie'' \<noteq> None \<and> ''cookie'' \<noteq> ''x-tenant-key'' \<and>
      ''cookie'' \<noteq> ''user-agent'' \<and> (signEnabled demo_env \<longrightarrow> ''cookie'' \<noteq> ''x-signature'')"
    by (simp add: redactSet_demo_env cookie)
  from forwarded_headers [OF g3 m3]
  have "\<forall>k. k \<in> set (redactSet demo_env) \<and> byteLower k = k \<and> headers ?r3 k \<noteq> None \<and>
              k \<noteq> ''x-tenant-key'' \<and> k \<noteq> ''user-agent'' \<and>
              (signEnabled demo_env \<longrightarrow> k \<noteq> ''x-signature'')
            \<longrightarrow> u_headers c3 k = Some ''__REDACTED__''"
    by (elim conjE)
  from mp [OF spec [OF this] hyp3]
  have "u_headers c3 ''cookie'' = Some ''__REDACTED__''" .
  then have d: "map_sum id (\<lambda>f. map (\<lambda>c. h_get (u_headers c) ''cookie'') (upstream f))
     (forwarder_fetch ?h 0 ?up demo_env ?r3) = Inr [h_get (headers ?r3) ''cookie'']"
    by (simp add: g3 c3 h_get_def cookie)
  have t: "TENANT_KEY ?e2 = '' t1 ''" by simp
  show ?thesis
    by (intro conjI) (rule redactSet_user_agent, rule a, rule b, rule t, rule c, rule d)
qed

text \<open>
  Claim C8, amended. On every request the handler sends upstream, the tenant-identity
  header is the configured tenant key with the HTTP white space around it stripped,
  and the user-agent header is the forwarder's own, whatever the caller sent. Every
  header of the request whose name, in lower case, is in the redact set (the
  configured names, trimmed and in lower case, the empty ones dropped) is sent with
  the redaction marker as its value, and so not with its original value unless that
  was the marker itself; except the names of the forced headers (\<open>x-tenant-key\<close>,
  \<open>user-agent\<close>, and \<open>x-signature\<close> when signing is on), which are set after the
  redaction. (A handler that raises on a header name or value sends nothing.)
\<close>

theorem redaction_and_forced_headers:
  assumes "forwarder_fetch hmac rnd up env request = Inr f" and "c \<in> set (upstream f)"
  shows
    "h_get (u_headers c) ''x-tenant-key'' = Inr (Some (normalizeValue (TENANT_KEY env))) \<and>
     h_get (u_headers c) ''user-agent'' = Inr (Some UA) \<and>
     (\<forall>n. byteLower n \<in> set (redactSet env) \<and> h_has (headers request) n = Inr True \<and>
          byteLower n \<noteq> ''x-tenant-key'' \<and> byteLower n \<noteq> ''user-agent'' \<and>
          (signEnabled env \<longrightarrow> byteLower n \<noteq> ''x-signature'')
        \<longrightarrow> h_get (u_headers c) n = Inr (Some ''__REDACTED__'') \<and>
            (h_get (headers request) n \<noteq> Inr (Some ''__REDACTED__'')
               \<longrightarrow> h_get (u_headers c) n \<noteq> h_get (headers request) n)) \<and>
     set (redactSet env) =
       (\<lambda>e. toLowerCase (trim e)) `
          set (split CHR '',''
                 (case REDACT_HEADERS env of None \<Rightarrow> ''authorization,cookie'' | Some s \<Rightarrow> s))
       - {[]}"
proof (intro conjI allI impI)
  note l = forwarded_headers [OF assms]
  from l show "h_get (u_headers c) ''x-tenant-key'' = Inr (Some (normalizeValue (TENANT_KEY env)))"
    and "h_get (u_headers c) ''user-agent'' = Inr (Some UA)"
    by (simp_all add: h_get_def fixed_names byteLower_consts)
  show "set (redactSet env) =
       (\<lambda>e. toLowerCase (trim e)) `
          set (split CHR '',''
                 (case REDACT_HEADERS env of None \<Rightarrow> ''authorization,cookie'' | Some s \<Rightarrow> s))
       - {[]}"
    by (rule set_redactSet)
  fix n
  assume a: "byteLower n \<in> set (redactSet env) \<and> h_has (headers request) n = Inr True \<and>
          byteLower n \<noteq> ''x-tenant-key'' \<and> byteLower n \<noteq> ''user-agent'' \<and>
          (signEnabled env \<longrightarrow> byteLower n \<noteq> ''x-signature'')"
  then have name: "isHeaderName n" and present: "headers request (byteLower n) \<noteq> None"
    by (auto simp: h_has_def split: if_splits)
  from a present have "byteLower n \<in> set (redactSet env) \<and> byteLower (byteLower n) = byteLower n \<and>
      headers request (byteLower n) \<noteq> None \<and>
      byteLower n \<noteq> ''x-tenant-key'' \<and> byteLower n \<noteq> ''user-agent'' \<and>
      (signEnabled env \<longrightarrow> byteLower n \<noteq> ''x-signature'')"
    by (simp add: byteLower_idem)
  with l have "u_headers c (byteLower n) = Some ''__REDACTED__''" by blast
  with name show m: "h_get (u_headers c) n = Inr (Some ''__REDACTED__'')"
    by (simp add: h_get_def)
  assume "h_get (headers request) n \<noteq> Inr (Some ''__REDACTED__'')"
  with m show "h_get (u_headers c) n \<noteq> h_get (headers request) n" by simp
qed

theorem redaction_and_forced_headers_witness:
  "\<exists>f. forwarder_fetch (\<lambda>k b. []) 0 (\<lambda>k. Resp 200) demo_env demo_request = Inr f \<and>
       upstream f \<noteq> [] \<and>
       h_get (headers demo_request) ''Cookie'' = Inr (Some ''sid=1'') \<and>
       h_get (u_headers (hd (upstream f))) ''Cookie'' = Inr (Some ''__REDACTED__'') \<and>
       h_get (u_headers (hd (upstream f))) ''x-tenant-key'' = Inr (Some ''t1'') \<and>
       h_get (u_headers (hd (upstream f))) ''user-agent'' = Inr (Some ''cf-forwarder/1.2'')"
proof -
  let ?h = "\<lambda>(k::string) (b::string). ([]::string)"
  let ?up = "\<lambda>k::nat. Resp 200"
  have gate: "\<not> js_gt (Fin 0) (sampleRate demo_env)"
    by (simp add: sampleRate_demo_env js_gt_def)
  from forward_ok [OF demo_ok]
  obtain f where fw: "forward ?h ?up demo_env demo_request = Inr f"
    by blast
  with admitted_goes_on [OF pathname_demo_request gate]
  have g: "forwarder_fetch ?h 0 ?up demo_env demo_request = Inr f" by simp
  from forward_calls_upstream [OF fw] have ne: "upstream f \<noteq> []" .
  then have c: "hd (upstream f) \<in> set (upstream f)" by simp
  note t = redaction_and_forced_headers [OF g c]
  have k: "byteLower ''Cookie'' = ''cookie''" by code_simp
  have nm: "isHeaderName ''Cookie''" by (simp add: isHeaderName_def isTchar_def)
  have o: "h_get (headers demo_request) ''Cookie'' = Inr (Some ''sid=1'')"
    by (simp add: h_get_def k nm demo_request_def)
  have h: "byteLower ''Cookie'' \<in> set (redactSet demo_env) \<and>
      h_has (headers demo_request) ''Cookie'' = Inr True \<and>
      byteLower ''Cookie'' \<noteq> ''x-tenant-key'' \<and> byteLower ''Cookie'' \<noteq> ''user-agent'' \<and>
      (signEnabled demo_env \<longrightarrow> byteLower ''Cookie'' \<noteq> ''x-signature'')"
    by (simp add: k nm redactSet_demo_env h_has_def demo_request_def)
  from t h have r: "h_get (u_headers (hd (upstream f))) ''Cookie'' = Inr (Some ''__REDACTED__'')"
    by blast
  from t have "h_get (u_headers (hd (upstream f))) ''x-tenant-key''
                  = Inr (Some (normalizeValue (TENANT_KEY demo_env)))"
    "h_get (u_headers (hd (upstream f))) ''user-agent'' = Inr (Some UA)" by blast+
  then have f': "h_get (u_headers (hd (upstream f))) ''x-tenant-key'' = Inr (Some ''t1'')"
    "h_get (u_headers (hd (upstream f))) ''user-agent'' = Inr (Some ''cf-forwarder/1.2'')"
    by (simp_all add: demo_env_def UA_def normalizeValue_def isHttpWhitespace_def)
  from g ne o r f' show ?thesis by blast
qed


end
